theory Spec2Isabelle
  imports Complex_Main "HOL-Library.Multiset"
begin

section \<open>Lattice index algebra\<close>

text \<open>
  The k-symmetry ISDF code (\<^verbatim>\<open>pyscf/pbc/df/isdf/isdf_k.py\<close>) addresses the supercell by
  triples of integers: a real-space mesh \<^verbatim>\<open>mesh\<close>, translation counts \<^verbatim>\<open>Ls\<close>, and cell or
  grid-point indices inside them.  All of them are non-negative counts, modelled as
  natural numbers; mesh axes and translation counts are positive wherever the code
  divides by them, and the theorems say so.
\<close>

type_synonym triple = "nat \<times> nat \<times> nat"

text \<open>\<^verbatim>\<open>np.prod(Ls)\<close>\<close>

definition prod3 :: "triple \<Rightarrow> nat" where
  "prod3 t = (case t of (a, b, c) \<Rightarrow> a * b * c)"

text \<open>\<^verbatim>\<open>mesh_prim = np.array(mesh) // np.array(Ls)\<close>\<close>

definition mesh_prim_of :: "triple \<Rightarrow> triple \<Rightarrow> triple" where
  "mesh_prim_of mesh Ls =
     (case mesh of (m0, m1, m2) \<Rightarrow> case Ls of (l0, l1, l2) \<Rightarrow>
        (m0 div l0, m1 div l1, m2 div l2))"

section \<open>Selection of the primitive-cell interpolation points\<close>

text \<open>
  \<^verbatim>\<open>PBC_ISDF_Info_kSym.select_IP\<close>, the loop over \<^verbatim>\<open>IP_GlobalID\<close>:
  \<^verbatim>\<open>
  pnt_id = (grid_id // (mesh[1] * mesh[2]), (grid_id // mesh[2]) % mesh[1], grid_id % mesh[2])
  box_id = (pnt_id[0] // mesh_prim[0], pnt_id[1] // mesh_prim[1], pnt_id[2] // mesh_prim[2])
  pnt_prim_id = (pnt_id[0] % mesh_prim[0], pnt_id[1] % mesh_prim[1], pnt_id[2] % mesh_prim[2])
  pnt_prim_ravel_id = pnt_prim_id[0] * mesh_prim[1] * mesh_prim[2]
                    + pnt_prim_id[1] * mesh_prim[2] + pnt_prim_id[2]
  \<close>
\<close>

definition pnt_id :: "triple \<Rightarrow> nat \<Rightarrow> triple" where
  "pnt_id mesh grid_id =
     (case mesh of (m0, m1, m2) \<Rightarrow>
        (grid_id div (m1 * m2), (grid_id div m2) mod m1, grid_id mod m2))"

definition box_id :: "triple \<Rightarrow> triple \<Rightarrow> triple" where
  "box_id mesh_prim p =
     (case mesh_prim of (q0, q1, q2) \<Rightarrow> case p of (p0, p1, p2) \<Rightarrow>
        (p0 div q0, p1 div q1, p2 div q2))"

definition pnt_prim_id :: "triple \<Rightarrow> triple \<Rightarrow> triple" where
  "pnt_prim_id mesh_prim p =
     (case mesh_prim of (q0, q1, q2) \<Rightarrow> case p of (p0, p1, p2) \<Rightarrow>
        (p0 mod q0, p1 mod q1, p2 mod q2))"

definition pnt_prim_ravel_id :: "triple \<Rightarrow> triple \<Rightarrow> nat" where
  "pnt_prim_ravel_id mesh_prim p =
     (case mesh_prim of (q0, q1, q2) \<Rightarrow> case p of (p0, p1, p2) \<Rightarrow>
        p0 * q1 * q2 + p1 * q2 + p2)"

text \<open>The primitive-cell point and the ravel index that one supercell grid point is sent to.\<close>

definition grid_prim_id :: "triple \<Rightarrow> triple \<Rightarrow> nat \<Rightarrow> triple" where
  "grid_prim_id mesh Ls grid_id = pnt_prim_id (mesh_prim_of mesh Ls) (pnt_id mesh grid_id)"

definition grid_prim_ravel_id :: "triple \<Rightarrow> triple \<Rightarrow> nat \<Rightarrow> nat" where
  "grid_prim_ravel_id mesh Ls grid_id =
     pnt_prim_ravel_id (mesh_prim_of mesh Ls) (grid_prim_id mesh Ls grid_id)"

text \<open>
  The index part of \<^verbatim>\<open>select_IP\<close>.  \<^verbatim>\<open>IP_GlobalID\<close> comes from the pivoted
  factorisation (\<^verbatim>\<open>ISDF._select_IP_direct\<close>) and is an argument here.
  \<^verbatim>\<open>
  possible_grid_ID = []
  for grid_id in IP_GlobalID:
      ...
      possible_grid_ID.append(pnt_prim_ravel_id)
  possible_grid_ID = list(set(possible_grid_ID))
  possible_grid_ID.sort()
  ...
  return np.array(possible_grid_ID, dtype=np.int32)
  \<close>
  Python leaves the order of \<^verbatim>\<open>list(set(...))\<close> open; \<open>remdups\<close> is one such listing and
  \<open>sort_any_listing\<close> below shows that the sorted result does not depend on which.
\<close>

definition select_IP :: "triple \<Rightarrow> triple \<Rightarrow> nat list \<Rightarrow> nat list" where
  "select_IP mesh Ls IP_GlobalID =
     (let possible_grid_ID = map (grid_prim_ravel_id mesh Ls) IP_GlobalID
      in sort (remdups possible_grid_ID))"

section \<open>Nested loops over lattice cells\<close>

text \<open>
  Python's \<^verbatim>\<open>a % n\<close> for a positive \<^verbatim>\<open>n\<close> and any integer \<^verbatim>\<open>a\<close>: the result lies in
  \<^verbatim>\<open>0 .. n-1\<close>, as HOL's \<open>mod\<close> on \<open>int\<close> does.  The code only takes it inside a loop
  over \<^verbatim>\<open>range(n)\<close>, where \<^verbatim>\<open>n\<close> is positive.
\<close>

definition py_mod :: "int \<Rightarrow> nat \<Rightarrow> nat" where
  "py_mod a n = nat (a mod int n)"

text \<open>
  The index triples that three nested loops \<^verbatim>\<open>for i0 in range(n0): for i1 in range(n1):
  for i2 in range(n2)\<close> run through, in the loops' order.
\<close>

definition cells :: "triple \<Rightarrow> triple list" where
  "cells dims =
     (case dims of (n0, n1, n2) \<Rightarrow> List.product [0..<n0] (List.product [0..<n1] [0..<n2]))"

section \<open>The grid permutation of the auxiliary-basis builder\<close>

text \<open>
  The inner helper of \<^verbatim>\<open>_construct_aux_basis_kSym\<close>:
  \<^verbatim>\<open>
  def _permutation(nx, ny, nz, shift_x, shift_y, shift_z):
      res = np.zeros((nx*ny*nz), dtype=numpy.int32)
      loc_now = 0
      for ix in range(nx):
          for iy in range(ny):
              for iz in range(nz):
                  ix2 = (nx - ix - shift_x) % nx
                  iy2 = (ny - iy - shift_y) % ny
                  iz2 = (nz - iz - shift_z) % nz
                  loc = ix2 * ny * nz + iy2 * nz + iz2
                  res[loc] = loc_now
                  loc_now += 1
      return res
  \<close>
  The loop state is the array \<^verbatim>\<open>res\<close> and the counter \<^verbatim>\<open>loc_now\<close>.  The write
  \<^verbatim>\<open>res[loc] = loc_now\<close> is always in range (\<open>permutation_loc_less\<close>), so the
  \<^verbatim>\<open>IndexError\<close> branch is never taken.  The stored values are below \<^verbatim>\<open>nx*ny*nz\<close>, the
  length of an in-memory array, and are modelled as unbounded naturals.
\<close>

definition permutation_loc :: "nat \<Rightarrow> nat \<Rightarrow> nat \<Rightarrow> int \<Rightarrow> int \<Rightarrow> int \<Rightarrow> triple \<Rightarrow> nat" where
  "permutation_loc nx ny nz shift_x shift_y shift_z t =
     (case t of (ix, iy, iz) \<Rightarrow>
        let ix2 = py_mod (int nx - int ix - shift_x) nx;
            iy2 = py_mod (int ny - int iy - shift_y) ny;
            iz2 = py_mod (int nz - int iz - shift_z) nz
        in ix2 * ny * nz + iy2 * nz + iz2)"

definition permutation_body ::
  "nat \<Rightarrow> nat \<Rightarrow> nat \<Rightarrow> int \<Rightarrow> int \<Rightarrow> int \<Rightarrow> nat \<Rightarrow> nat \<Rightarrow> nat \<Rightarrow> nat list \<times> nat \<Rightarrow> nat list \<times> nat" where
  "permutation_body nx ny nz shift_x shift_y shift_z ix iy iz st =
     (case st of (res, loc_now) \<Rightarrow>
        let loc = permutation_loc nx ny nz shift_x shift_y shift_z (ix, iy, iz)
        in (res[loc := loc_now], loc_now + 1))"

definition permutation :: "nat \<Rightarrow> nat \<Rightarrow> nat \<Rightarrow> int \<Rightarrow> int \<Rightarrow> int \<Rightarrow> nat list" where
  "permutation nx ny nz shift_x shift_y shift_z =
     fst (fold (\<lambda>ix. fold (\<lambda>iy. fold (\<lambda>iz.
            permutation_body nx ny nz shift_x shift_y shift_z ix iy iz)
          [0..<nz]) [0..<ny]) [0..<nx] (replicate (nx * ny * nz) 0, 0))"

section \<open>Dense matrices and their blocks\<close>

text \<open>
  Python exceptions are values: a function that can raise returns \<open>error + 'a\<close>.
\<close>

datatype error = AssertionError | NotImplementedError | TypeError

text \<open>
  A two-dimensional NumPy array is a list of rows of equal length.  \<^verbatim>\<open>np.float64\<close> entries
  are modelled as real numbers: copying an entry and placing a block are exact in both, and
  sums and quotients are the exact ones.
\<close>

type_synonym 'a matrix = "'a list list"

definition has_shape :: "'a matrix \<Rightarrow> nat \<Rightarrow> nat \<Rightarrow> bool" where
  "has_shape M r c \<longleftrightarrow> length M = r \<and> list_all (\<lambda>row. length row = c) M"

text \<open>\<^verbatim>\<open>np.zeros((r, c))\<close>\<close>

definition zeros :: "nat \<Rightarrow> nat \<Rightarrow> real matrix" where
  "zeros r c = replicate r (replicate c 0)"

text \<open>
  The slice \<^verbatim>\<open>M[r0:r1, c0:c1]\<close> for non-negative bounds; like NumPy, \<open>take\<close> and \<open>drop\<close>
  clip a bound that lies beyond the array.
\<close>

definition slice2 :: "'a matrix \<Rightarrow> nat \<Rightarrow> nat \<Rightarrow> nat \<Rightarrow> nat \<Rightarrow> 'a matrix" where
  "slice2 M r0 r1 c0 c1 = map (\<lambda>row. take (c1 - c0) (drop c0 row)) (take (r1 - r0) (drop r0 M))"

text \<open>\<^verbatim>\<open>M[:, c0:c1]\<close>\<close>

definition slice_cols :: "'a matrix \<Rightarrow> nat \<Rightarrow> nat \<Rightarrow> 'a matrix" where
  "slice_cols M c0 c1 = map (\<lambda>row. take (c1 - c0) (drop c0 row)) M"

text \<open>
  The assignment \<^verbatim>\<open>M[r0:r1, c0:c1] = B\<close>: the entry \<open>(i, j)\<close> of the slice receives
  \<open>B[i - r0, j - c0]\<close>, every other entry of \<open>M\<close> stays.  NumPy raises when the shape of
  \<open>B\<close> is not the shape of the slice; in the loops below both are
  \<open>(nao_prim, nao_prim)\<close> once the shape assertions have passed.
\<close>

definition set_slice2 :: "'a matrix \<Rightarrow> nat \<Rightarrow> nat \<Rightarrow> nat \<Rightarrow> nat \<Rightarrow> 'a matrix \<Rightarrow> 'a matrix" where
  "set_slice2 M r0 r1 c0 c1 B =
     map (\<lambda>i. if r0 \<le> i \<and> i < r1
               then map (\<lambda>j. if c0 \<le> j \<and> j < c1 then B ! (i - r0) ! (j - c0) else M ! i ! j)
                      [0..<length (M ! i)]
               else M ! i)
         [0..<length M]"

text \<open>The primitive-cell block \<^verbatim>\<open>M[r*n:(r+1)*n, c*n:(c+1)*n]\<close> at block indices \<open>(r, c)\<close>.\<close>

definition block :: "'a matrix \<Rightarrow> nat \<Rightarrow> nat \<Rightarrow> nat \<Rightarrow> 'a matrix" where
  "block M n r c = slice2 M (r * n) ((r + 1) * n) (c * n) ((c + 1) * n)"

text \<open>The linear index of a cell: \<^verbatim>\<open>ix * Ls[1] * Ls[2] + iy * Ls[2] + iz\<close>.\<close>

definition loc_cell :: "triple \<Rightarrow> triple \<Rightarrow> nat" where
  "loc_cell Ls t =
     (case Ls of (L0, L1, L2) \<Rightarrow> case t of (ix, iy, iz) \<Rightarrow> ix * L1 * L2 + iy * L2 + iz)"

text \<open>
  The translation difference of two cells,
  \<^verbatim>\<open>((ix_col - ix_row) % Ls[0], (iy_col - iy_row) % Ls[1], (iz_col - iz_row) % Ls[2])\<close>.
\<close>

definition cell_diff :: "triple \<Rightarrow> triple \<Rightarrow> triple \<Rightarrow> triple" where
  "cell_diff Ls col row =
     (case Ls of (L0, L1, L2) \<Rightarrow> case col of (ix_col, iy_col, iz_col) \<Rightarrow>
      case row of (ix_row, iy_row, iz_row) \<Rightarrow>
        (py_mod (int ix_col - int ix_row) L0,
         py_mod (int iy_col - int iy_row) L1,
         py_mod (int iz_col - int iz_row) L2))"

section \<open>Packing a primitive block row into a block-circulant matrix\<close>

text \<open>
  \<^verbatim>\<open>_pack_JK(input_mat, Ls, nao_prim, output=None)\<close>.  The body of its six nested loops:
  \<^verbatim>\<open>
  loc_row = ix_row * Ls[1] * Ls[2] + iy_row * Ls[2] + iz_row
  b_begin = loc_row * nao_prim
  b_end   = (loc_row + 1) * nao_prim
  ...
  loc_col = ix_col * Ls[1] * Ls[2] + iy_col * Ls[2] + iz_col
  k_begin = loc_col * nao_prim
  k_end   = (loc_col + 1) * nao_prim
  ix = (ix_col - ix_row) % Ls[0]
  iy = (iy_col - iy_row) % Ls[1]
  iz = (iz_col - iz_row) % Ls[2]
  loc_col2 = ix * Ls[1] * Ls[2] + iy * Ls[2] + iz
  k_begin2 = loc_col2 * nao_prim
  k_end2   = (loc_col2 + 1) * nao_prim
  output[b_begin:b_end, k_begin:k_end] = input_mat[:, k_begin2:k_end2]
  \<close>
\<close>

definition pack_JK_body ::
  "real matrix \<Rightarrow> triple \<Rightarrow> nat \<Rightarrow> triple \<Rightarrow> triple \<Rightarrow> real matrix \<Rightarrow> real matrix" where
  "pack_JK_body input_mat Ls nao_prim row col output =
     (let loc_row = loc_cell Ls row;
          b_begin = loc_row * nao_prim;
          b_end = (loc_row + 1) * nao_prim;
          loc_col = loc_cell Ls col;
          k_begin = loc_col * nao_prim;
          k_end = (loc_col + 1) * nao_prim;
          loc_col2 = loc_cell Ls (cell_diff Ls col row);
          k_begin2 = loc_col2 * nao_prim;
          k_end2 = (loc_col2 + 1) * nao_prim
      in set_slice2 output b_begin b_end k_begin k_end (slice_cols input_mat k_begin2 k_end2))"

text \<open>
  \<^verbatim>\<open>
  if output is None:
      output = np.zeros((ncell*nao_prim, ncell*nao_prim), dtype=np.float64)
  else:
      assert output.shape == (ncell*nao_prim, ncell*nao_prim)
  \<close>
\<close>

definition pack_JK_output :: "real matrix option \<Rightarrow> nat \<Rightarrow> nat \<Rightarrow> error + real matrix" where
  "pack_JK_output output ncell nao_prim =
     (case output of
        None \<Rightarrow> Inr (zeros (ncell * nao_prim) (ncell * nao_prim))
      | Some out \<Rightarrow>
          if has_shape out (ncell * nao_prim) (ncell * nao_prim) then Inr out
          else Inl AssertionError)"

definition pack_JK_loops :: "real matrix \<Rightarrow> triple \<Rightarrow> nat \<Rightarrow> real matrix \<Rightarrow> real matrix" where
  "pack_JK_loops input_mat Ls nao_prim output =
     (case Ls of (L0, L1, L2) \<Rightarrow>
        fold (\<lambda>ix_row. fold (\<lambda>iy_row. fold (\<lambda>iz_row.
          fold (\<lambda>ix_col. fold (\<lambda>iy_col. fold (\<lambda>iz_col.
            pack_JK_body input_mat Ls nao_prim (ix_row, iy_row, iz_row) (ix_col, iy_col, iz_col))
          [0..<L2]) [0..<L1]) [0..<L0])
        [0..<L2]) [0..<L1]) [0..<L0] output)"

text \<open>
  The whole function, with its assertions on the input shape
  (\<^verbatim>\<open>assert input_mat.shape[0] == nao_prim\<close>,
  \<^verbatim>\<open>assert input_mat.shape[1] == nao_prim * ncell\<close>); the assertion on the element type is
  the type of \<open>input_mat\<close>.
\<close>

definition pack_JK ::
  "real matrix \<Rightarrow> triple \<Rightarrow> nat \<Rightarrow> real matrix option \<Rightarrow> error + real matrix" where
  "pack_JK input_mat Ls nao_prim output =
     (let ncell = prod3 Ls in
      if \<not> has_shape input_mat nao_prim (nao_prim * ncell) then Inl AssertionError
      else (case pack_JK_output output ncell nao_prim of
              Inl e \<Rightarrow> Inl e
            | Inr out0 \<Rightarrow> Inr (pack_JK_loops input_mat Ls nao_prim out0)))"


section \<open>Symmetrising the density matrix\<close>

text \<open>
  The in-place block updates \<^verbatim>\<open>dm_symmized_buf += dm[...]\<close> (entrywise sum of two blocks of
  one shape) and \<^verbatim>\<open>dm_symmized_buf /= ncell\<close>.
\<close>

definition mat_add :: "real matrix \<Rightarrow> real matrix \<Rightarrow> real matrix" where
  "mat_add A B = map2 (map2 (+)) A B"

definition mat_div :: "real matrix \<Rightarrow> nat \<Rightarrow> real matrix" where
  "mat_div A k = map (map (\<lambda>x. x / real k)) A"

text \<open>
  The cell reached from \<open>row\<close> by the shift \<open>(i, j, k)\<close>:
  \<^verbatim>\<open>((i + i_row) % Ls[0], (j + j_row) % Ls[1], (k + k_row) % Ls[2])\<close>.
\<close>

definition cell_add :: "triple \<Rightarrow> triple \<Rightarrow> triple \<Rightarrow> triple" where
  "cell_add Ls shift row =
     (case Ls of (L0, L1, L2) \<Rightarrow> case shift of (i, j, k) \<Rightarrow>
      case row of (i_row, j_row, k_row) \<Rightarrow>
        ((i + i_row) mod L0, (j + j_row) mod L1, (k + k_row) mod L2))"

text \<open>
  \<^verbatim>\<open>_symmetrize_dm(dm, Ls)\<close>.  Both inner loops compute
  \<^verbatim>\<open>
  loc_row = i_row * Ls[1] * Ls[2] + j_row * Ls[2] + k_row
  loc_col = ((i + i_row) % Ls[0]) * Ls[1] * Ls[2] + ((j + j_row) % Ls[1]) * Ls[2]
          + (k + k_row) % Ls[2]
  b_begin = loc_row * nao_prim
  b_end   = (loc_row + 1) * nao_prim
  k_begin = loc_col * nao_prim
  k_end   = (loc_col + 1) * nao_prim
  \<close>
  the first then adds \<^verbatim>\<open>dm[b_begin:b_end, k_begin:k_end]\<close> to the buffer, the second stores
  the averaged buffer into \<^verbatim>\<open>dm_symm[b_begin:b_end, k_begin:k_end]\<close>.
\<close>

definition symmetrize_dm_sum ::
  "real matrix \<Rightarrow> triple \<Rightarrow> nat \<Rightarrow> triple \<Rightarrow> triple \<Rightarrow> real matrix \<Rightarrow> real matrix" where
  "symmetrize_dm_sum dm Ls nao_prim shift row dm_symmized_buf =
     (let loc_row = loc_cell Ls row;
          loc_col = loc_cell Ls (cell_add Ls shift row);
          b_begin = loc_row * nao_prim;
          b_end = (loc_row + 1) * nao_prim;
          k_begin = loc_col * nao_prim;
          k_end = (loc_col + 1) * nao_prim
      in mat_add dm_symmized_buf (slice2 dm b_begin b_end k_begin k_end))"

definition symmetrize_dm_set ::
  "triple \<Rightarrow> nat \<Rightarrow> triple \<Rightarrow> real matrix \<Rightarrow> triple \<Rightarrow> real matrix \<Rightarrow> real matrix" where
  "symmetrize_dm_set Ls nao_prim shift dm_symmized_buf row dm_symm =
     (let loc_row = loc_cell Ls row;
          loc_col = loc_cell Ls (cell_add Ls shift row);
          b_begin = loc_row * nao_prim;
          b_end = (loc_row + 1) * nao_prim;
          k_begin = loc_col * nao_prim;
          k_end = (loc_col + 1) * nao_prim
      in set_slice2 dm_symm b_begin b_end k_begin k_end dm_symmized_buf)"

text \<open>
  For one shift \<open>(i, j, k)\<close>: the buffer starts as \<^verbatim>\<open>np.zeros((nao_prim, nao_prim))\<close>,
  collects the blocks of all rows, and is divided by \<^verbatim>\<open>ncell\<close>.
\<close>

definition symmetrize_dm_buf :: "real matrix \<Rightarrow> triple \<Rightarrow> nat \<Rightarrow> nat \<Rightarrow> triple \<Rightarrow> real matrix" where
  "symmetrize_dm_buf dm Ls ncell nao_prim shift =
     (case Ls of (L0, L1, L2) \<Rightarrow>
        let dm_symmized_buf = zeros nao_prim nao_prim;
            dm_symmized_buf =
              fold (\<lambda>i_row. fold (\<lambda>j_row. fold (\<lambda>k_row.
                symmetrize_dm_sum dm Ls nao_prim shift (i_row, j_row, k_row))
              [0..<L2]) [0..<L1]) [0..<L0] dm_symmized_buf
        in mat_div dm_symmized_buf ncell)"

definition symmetrize_dm_shift ::
  "real matrix \<Rightarrow> triple \<Rightarrow> nat \<Rightarrow> nat \<Rightarrow> triple \<Rightarrow> real matrix \<Rightarrow> real matrix" where
  "symmetrize_dm_shift dm Ls ncell nao_prim shift dm_symm =
     (case Ls of (L0, L1, L2) \<Rightarrow>
        let dm_symmized_buf = symmetrize_dm_buf dm Ls ncell nao_prim shift
        in fold (\<lambda>i_row. fold (\<lambda>j_row. fold (\<lambda>k_row.
             symmetrize_dm_set Ls nao_prim shift dm_symmized_buf (i_row, j_row, k_row))
           [0..<L2]) [0..<L1]) [0..<L0] dm_symm)"

text \<open>
  The whole function: \<^verbatim>\<open>ncell = np.prod(Ls)\<close>, \<^verbatim>\<open>nao = dm.shape[0]\<close>,
  \<^verbatim>\<open>nao_prim = nao // ncell\<close>, \<^verbatim>\<open>dm_symm = np.zeros((nao, nao))\<close>, then the loop over all
  shifts.  The blocks have one shape when \<open>dm\<close> is square, which is what the theorems
  assume of a density matrix.
\<close>

definition symmetrize_dm :: "real matrix \<Rightarrow> triple \<Rightarrow> real matrix" where
  "symmetrize_dm dm Ls =
     (case Ls of (L0, L1, L2) \<Rightarrow>
        let ncell = prod3 Ls;
            nao = length dm;
            nao_prim = nao div ncell;
            dm_symm = zeros nao nao
        in fold (\<lambda>i. fold (\<lambda>j. fold (\<lambda>k.
             symmetrize_dm_shift dm Ls ncell nao_prim (i, j, k))
           [0..<L2]) [0..<L1]) [0..<L0] dm_symm)"


section \<open>The J/K driver\<close>

text \<open>
  \<^verbatim>\<open>get_jk_dm_kSym(mydf, dm, hermi=1, kpt=np.zeros(3), kpts_band=None, with_j=True,
  with_k=True, omega=None, **kwargs)\<close>.  The density matrix arrives with two or three
  indices; the ISDF object is read through the fields below; \<^verbatim>\<open>hermi\<close>, \<^verbatim>\<open>omega\<close> and
  \<^verbatim>\<open>exxdiv\<close> are not used by the function.
\<close>

datatype ndarray = Array2 "real matrix" | Array3 "real matrix list"

text \<open>
  The fields of the \<^verbatim>\<open>PBC_ISDF_Info_kSym\<close> object that the modelled functions read or
  write: \<^verbatim>\<open>Ls\<close>, \<^verbatim>\<open>jk_buffer\<close> (\<open>None\<close> until allocated), \<^verbatim>\<open>outcore\<close>,
  \<^verbatim>\<open>with_robust_fitting\<close>, \<^verbatim>\<open>nIP_Prim\<close>, \<^verbatim>\<open>W\<close>, \<^verbatim>\<open>W0\<close>, \<^verbatim>\<open>aoRg_Prim\<close>, and of its cell
  \<^verbatim>\<open>cell.nao\<close>, \<^verbatim>\<open>np.prod(cell.mesh)\<close> and \<^verbatim>\<open>cell.vol\<close>.
\<close>

record isdf =
  mydf_Ls :: triple
  mydf_jk_buffer :: "real list option"
  mydf_outcore :: bool
  mydf_with_robust_fitting :: bool
  mydf_nIP_Prim :: nat
  mydf_W :: "real matrix"
  mydf_W0 :: "real matrix"
  mydf_aoRg_Prim :: "real matrix"
  mydf_nao :: nat
  mydf_ngrid :: nat
  mydf_vol :: real

record jk_args =
  arg_dm :: ndarray
  arg_dm_iscomplexobj :: bool
  arg_kpt :: "real list"
  arg_kpts_band :: "real list option"
  arg_with_j :: bool
  arg_with_k :: bool

text \<open>
  What the driver calls and this file does not define: \<^verbatim>\<open>gamma_point\<close> of
  \<^verbatim>\<open>pyscf.pbc.lib.kpts_helper\<close>, and the two contractions \<^verbatim>\<open>_get_j_kSym\<close> and
  \<^verbatim>\<open>_get_k_kSym\<close>, whose arithmetic runs in compiled kernels.  They are arguments of the
  model; a contraction may raise.
\<close>

record jk_env =
  env_gamma_point :: "real list \<Rightarrow> bool"
  env_get_j_kSym :: "isdf \<Rightarrow> real matrix \<Rightarrow> error + real matrix"
  env_get_k_kSym :: "isdf \<Rightarrow> real matrix \<Rightarrow> error + real matrix"

text \<open>
  \<^verbatim>\<open>
  if len(dm.shape) == 3:
      assert dm.shape[0] == 1
      dm = dm[0]
  \<close>
\<close>

definition unwrap_dm :: "ndarray \<Rightarrow> error + real matrix" where
  "unwrap_dm d =
     (case d of
        Array2 m \<Rightarrow> Inr m
      | Array3 ms \<Rightarrow> if length ms = 1 then Inr (ms ! 0) else Inl AssertionError)"

text \<open>\<^verbatim>\<open>kpts_band is not None and abs(kpt-kpts_band).sum() > 1e-9\<close>\<close>

definition kpts_differ :: "real list \<Rightarrow> real list option \<Rightarrow> bool" where
  "kpts_differ k band =
     (case band of
        None \<Rightarrow> False
      | Some kb \<Rightarrow> sum_list (map2 (\<lambda>x y. \<bar>x - y\<bar>) k kb) > 1 / 10 ^ 9)"

text \<open>
  \<^verbatim>\<open>mydf._allocate_jk_buffer(datatype=dm.dtype)\<close>, reached when \<^verbatim>\<open>mydf.jk_buffer is None\<close>.
  The method of \<^verbatim>\<open>PBC_ISDF_Info_kSym\<close> is declared as
  \<^verbatim>\<open>_allocate_jk_buffer(self, dtype=np.float64)\<close>, so the keyword \<^verbatim>\<open>datatype\<close> is rejected
  with a \<^verbatim>\<open>TypeError\<close>.  The build steps allocate the buffer before any J/K call.
\<close>

definition allocate_jk_buffer_datatype :: "isdf \<Rightarrow> error + isdf" where
  "allocate_jk_buffer_datatype mydf = Inl TypeError"

text \<open>
  The tail of the driver, after the density matrix has been symmetrised:
  \<^verbatim>\<open>
  if mydf.outcore and mydf.with_robust_fitting == True:
      raise NotImplementedError(...)
  else:
      if mydf.with_robust_fitting == True:
          raise NotImplementedError
      else:
          vj1 = _get_j_kSym(mydf, dm)
          vk2 = _get_k_kSym(mydf, dm)
          vj = vj1
          vk = vk2
  return vj, vk
  \<close>
\<close>

definition get_jk_contract :: "jk_env \<Rightarrow> isdf \<Rightarrow> real matrix \<Rightarrow> error + real matrix \<times> real matrix" where
  "get_jk_contract env mydf d =
     (if mydf_outcore mydf \<and> mydf_with_robust_fitting mydf then Inl NotImplementedError
      else if mydf_with_robust_fitting mydf then Inl NotImplementedError
      else (case env_get_j_kSym env mydf d of
              Inl e \<Rightarrow> Inl e
            | Inr vj1 \<Rightarrow>
                (case env_get_k_kSym env mydf d of
                   Inl e \<Rightarrow> Inl e
                 | Inr vk2 \<Rightarrow> Inr (vj1, vk2))))"

text \<open>
  \<^verbatim>\<open>
  if kpts_band is not None and abs(kpt-kpts_band).sum() > 1e-9:
      raise NotImplementedError("ISDF does not support kpts_band != kpt")
  j_real = gamma_point(kpt)
  k_real = gamma_point(kpt) and not np.iscomplexobj(dm)
  assert j_real
  assert k_real
  dm = _symmetrize_dm(dm, mydf.Ls)
  \<close>
\<close>

definition get_jk_checked :: "jk_env \<Rightarrow> isdf \<Rightarrow> jk_args \<Rightarrow> real matrix \<Rightarrow> error + real matrix \<times> real matrix" where
  "get_jk_checked env mydf args d =
     (if kpts_differ (arg_kpt args) (arg_kpts_band args) then Inl NotImplementedError
      else
        let j_real = env_gamma_point env (arg_kpt args);
            k_real = (env_gamma_point env (arg_kpt args) \<and> \<not> arg_dm_iscomplexobj args)
        in if \<not> j_real then Inl AssertionError
           else if \<not> k_real then Inl AssertionError
           else get_jk_contract env mydf (symmetrize_dm d (mydf_Ls mydf)))"

text \<open>
  The head of the driver: the unwrapping of \<open>dm\<close>, then
  \<^verbatim>\<open>assert with_j is True and with_k is True\<close>, then the buffer allocation.
\<close>

definition get_jk_dm_kSym :: "jk_env \<Rightarrow> isdf \<Rightarrow> jk_args \<Rightarrow> error + real matrix \<times> real matrix" where
  "get_jk_dm_kSym env mydf args =
     (case unwrap_dm (arg_dm args) of
        Inl e \<Rightarrow> Inl e
      | Inr d \<Rightarrow>
          if \<not> (arg_with_j args \<and> arg_with_k args) then Inl AssertionError
          else (case (if mydf_jk_buffer mydf = None then allocate_jk_buffer_datatype mydf else Inr mydf) of
                  Inl e \<Rightarrow> Inl e
                | Inr mydf1 \<Rightarrow> get_jk_checked env mydf1 args d))"

text \<open>
  The average that the symmetrisation is claimed to compute, entry \<open>(a, b)\<close> of the block:
  \<open>1 / prod(Ls)\<close> times the sum, over all block rows \<open>r\<close>, of the input blocks at
  \<open>(r, r + d)\<close>, where \<open>d\<close> is a translation difference.
\<close>

definition block_average :: "real matrix \<Rightarrow> triple \<Rightarrow> nat \<Rightarrow> triple \<Rightarrow> nat \<Rightarrow> nat \<Rightarrow> real" where
  "block_average dm Ls n d a b =
     (1 / real (prod3 Ls))
     * (\<Sum>r\<leftarrow>cells Ls. dm ! (loc_cell Ls r * n + a) ! (loc_cell Ls (cell_add Ls d r) * n + b))"

text \<open>
  A matrix is block-circulant under the translation group when its block at the cells
  \<open>(row, col)\<close> depends only on the translation difference \<open>(col - row) mod Ls\<close>.
\<close>

definition block_circulant :: "real matrix \<Rightarrow> triple \<Rightarrow> nat \<Rightarrow> bool" where
  "block_circulant M Ls n \<longleftrightarrow>
     (\<forall>row \<in> set (cells Ls). \<forall>col \<in> set (cells Ls).
      \<forall>row' \<in> set (cells Ls). \<forall>col' \<in> set (cells Ls).
        cell_diff Ls col row = cell_diff Ls col' row' \<longrightarrow>
        block M n (loc_cell Ls row) (loc_cell Ls col) = block M n (loc_cell Ls row') (loc_cell Ls col'))"

section \<open>Construction of the k-symmetry ISDF objects\<close>

text \<open>
  The constructors run a fixed sequence of steps; the model returns, next to the object or
  the error, the steps that were started, in order.
\<close>

datatype phase =
  Super_init | Load_coords | Extract_grid_primitive_cell | Eval_ao | Build_primitive_cell

text \<open>
  What \<^verbatim>\<open>super().__init__(...)\<close> leaves on the object, as far as the constructors read
  it: \<^verbatim>\<open>self.mesh\<close>, whether \<^verbatim>\<open>self.coords\<close> is \<^verbatim>\<open>None\<close>, and \<^verbatim>\<open>self.nao\<close>.  The
  parent classes (\<^verbatim>\<open>PBC_ISDF_Info_outcore\<close>, \<^verbatim>\<open>PBC_ISDF_Info_Quad\<close>) are outside the
  modelled files; their constructor is an argument and may raise.
\<close>

record base_info =
  base_mesh :: triple
  base_coords_is_None :: bool
  base_nao :: nat

text \<open>
  The collaborators of \<^verbatim>\<open>PBC_ISDF_Info_kSym.__init__\<close>: the parent constructor and
  \<^verbatim>\<open>_extract_grid_primitive_cell\<close>, whose assertions are about floating-point lattice
  vectors and coordinates and whose result is the reordered grid.
\<close>

record 'g kSym_env =
  kSym_super_init :: "error + base_info"
  kSym_extract_grid :: "triple \<Rightarrow> triple \<Rightarrow> error + 'g"

record 'g kSym_object =
  obj_Ls :: triple
  obj_mesh :: triple
  obj_ordered_grid :: 'g
  obj_aoR_evaluated :: bool

text \<open>
  The three assertions \<^verbatim>\<open>assert self.mesh[i] % Ls[i] == 0\<close> that both constructors make.
\<close>

definition mesh_divisible :: "triple \<Rightarrow> triple \<Rightarrow> bool" where
  "mesh_divisible mesh Ls =
     (case mesh of (m0, m1, m2) \<Rightarrow> case Ls of (l0, l1, l2) \<Rightarrow>
        m0 mod l0 = 0 \<and> m1 mod l1 = 0 \<and> m2 mod l2 = 0)"

text \<open>
  \<^verbatim>\<open>
  def __init__(self, mol, max_buf_memory, Ls=[1,1,1], outcore=True,
               with_robust_fitting=True, aoR=None):
      super().__init__(...)
      assert with_robust_fitting == False
      assert self.mesh[0] % Ls[0] == 0
      assert self.mesh[1] % Ls[1] == 0
      assert self.mesh[2] % Ls[2] == 0
      self.Ls = Ls
      if self.coords is None:
          ... self.coords = np.asarray(df_tmp.grids.coords).reshape(-1,3).copy()
      self.ordered_grid_coords, self.ordered_grid_coords_dict =
          _extract_grid_primitive_cell(self.cell.lattice_vectors(), self.mesh, self.Ls, self.coords)
      if outcore is False:
          weight   = np.sqrt(self.cell.vol / self.ngrids)
          self.aoR = self._numint.eval_ao(self.cell, self.ordered_grid_coords)[0].T * weight
  \<close>
\<close>

definition kSym_init_tail ::
  "'g kSym_env \<Rightarrow> base_info \<Rightarrow> triple \<Rightarrow> bool \<Rightarrow> phase list \<times> (error + 'g kSym_object)" where
  "kSym_init_tail env base Ls outcore =
     (let started = [Super_init] @ (if base_coords_is_None base then [Load_coords] else [])
                    @ [Extract_grid_primitive_cell]
      in case kSym_extract_grid env (base_mesh base) Ls of
           Inl e \<Rightarrow> (started, Inl e)
         | Inr grid \<Rightarrow>
             if outcore = False
             then (started @ [Eval_ao],
                   Inr \<lparr>obj_Ls = Ls, obj_mesh = base_mesh base, obj_ordered_grid = grid,
                        obj_aoR_evaluated = True\<rparr>)
             else (started,
                   Inr \<lparr>obj_Ls = Ls, obj_mesh = base_mesh base, obj_ordered_grid = grid,
                        obj_aoR_evaluated = False\<rparr>))"

definition PBC_ISDF_Info_kSym_init ::
  "'g kSym_env \<Rightarrow> triple \<Rightarrow> bool \<Rightarrow> bool \<Rightarrow> phase list \<times> (error + 'g kSym_object)" where
  "PBC_ISDF_Info_kSym_init env Ls outcore with_robust_fitting =
     (case kSym_super_init env of
        Inl e \<Rightarrow> ([Super_init], Inl e)
      | Inr base \<Rightarrow>
          if \<not> (with_robust_fitting = False) then ([Super_init], Inl AssertionError)
          else if \<not> mesh_divisible (base_mesh base) Ls then ([Super_init], Inl AssertionError)
          else kSym_init_tail env base Ls outcore)"

text \<open>
  \<^verbatim>\<open>PBC_ISDF_Info_Quad_K.__init__\<close> of \<^verbatim>\<open>isdf_linear_scaling_k.py\<close>:
  \<^verbatim>\<open>
  def __init__(self, mol, with_robust_fitting=True, Ls=None, verbose = 1,
               rela_cutoff_QRCP = None, aoR_cutoff = 1e-8, direct=False):
      super().__init__(mol, with_robust_fitting, None, verbose, rela_cutoff_QRCP, aoR_cutoff, direct)
      self.Ls    = Ls
      self.kmesh = Ls
      assert self.mesh[0] % Ls[0] == 0
      assert self.mesh[1] % Ls[1] == 0
      assert self.mesh[2] % Ls[2] == 0
      self.meshPrim = np.array(self.mesh) // np.array(self.Ls)
      self.natm     = self.cell.natm
      self.natmPrim = self.cell.natm // np.prod(self.Ls)
      self.with_translation_symmetry = True
      self.primCell = ISDF_K.build_primitive_cell(self.cell, self.kmesh)
      self.nao_prim = self.nao // np.prod(self.kmesh)
      assert self.nao_prim == self.primCell.nao_nr()
  \<close>
  With the default \<^verbatim>\<open>Ls=None\<close> the subscript \<^verbatim>\<open>Ls[0]\<close> raises a TypeError.
  \<^verbatim>\<open>build_primitive_cell\<close> is an argument: it gives the primitive cell's \<^verbatim>\<open>nao_nr()\<close> or
  raises.
\<close>

record Quad_K_env =
  Quad_K_super_init :: "error + base_info"
  Quad_K_build_primitive_cell :: "triple \<Rightarrow> error + nat"

record Quad_K_object =
  qobj_Ls :: triple
  qobj_meshPrim :: triple
  qobj_nao_prim :: nat

definition Quad_K_init_tail ::
  "Quad_K_env \<Rightarrow> base_info \<Rightarrow> triple \<Rightarrow> phase list \<times> (error + Quad_K_object)" where
  "Quad_K_init_tail env base Ls =
     (let meshPrim = mesh_prim_of (base_mesh base) Ls;
          started = [Super_init, Build_primitive_cell]
      in case Quad_K_build_primitive_cell env Ls of
           Inl e \<Rightarrow> (started, Inl e)
         | Inr primCell_nao \<Rightarrow>
             let nao_prim = base_nao base div prod3 Ls
             in if \<not> (nao_prim = primCell_nao) then (started, Inl AssertionError)
                else (started,
                      Inr \<lparr>qobj_Ls = Ls, qobj_meshPrim = meshPrim, qobj_nao_prim = nao_prim\<rparr>))"

definition PBC_ISDF_Info_Quad_K_init ::
  "Quad_K_env \<Rightarrow> triple option \<Rightarrow> phase list \<times> (error + Quad_K_object)" where
  "PBC_ISDF_Info_Quad_K_init env Ls_arg =
     (case Quad_K_super_init env of
        Inl e \<Rightarrow> ([Super_init], Inl e)
      | Inr base \<Rightarrow>
          (case Ls_arg of
             None \<Rightarrow> ([Super_init], Inl TypeError)
           | Some Ls \<Rightarrow>
               if \<not> mesh_divisible (base_mesh base) Ls then ([Super_init], Inl AssertionError)
               else Quad_K_init_tail env base Ls))"

text \<open>The claim's notion: every mesh component is an exact multiple of its translation count.\<close>

definition exactly_divisible :: "triple \<Rightarrow> triple \<Rightarrow> bool" where
  "exactly_divisible mesh Ls =
     (case mesh of (m0, m1, m2) \<Rightarrow> case Ls of (l0, l1, l2) \<Rightarrow>
        l0 dvd m0 \<and> l1 dvd m1 \<and> l2 dvd m2)"

definition positive3 :: "triple \<Rightarrow> bool" where
  "positive3 t = (case t of (a, b, c) \<Rightarrow> 0 < a \<and> 0 < b \<and> 0 < c)"

section \<open>The Coulomb metric and the J build\<close>

text \<open>
  The numerical kernels that \<^verbatim>\<open>_construct_W_incore\<close> and \<^verbatim>\<open>_get_j_kSym\<close> call through
  \<^verbatim>\<open>pyscf.lib\<close> are compiled code outside the modelled files; they are arguments of the
  model, each a function of the arrays it is given:
  \<^verbatim>\<open>lib.ddot(a, b, c=...)\<close>, \<^verbatim>\<open>lib.multiply_sum_isdf(a, b, out=...)\<close>,
  \<^verbatim>\<open>lib.d_ij_j_ij(a, v, out=...)\<close>, \<^verbatim>\<open>lib.ddot_withbuffer(a, b, c=..., beta=1, buf=...)\<close>
  (which updates \<^verbatim>\<open>c\<close>), and the allocation branch of \<^verbatim>\<open>mydf._allocate_jk_buffer()\<close>, which
  sizes and creates the scratch buffer or raises.
\<close>

record lib_kernels =
  lib_ddot :: "real matrix \<Rightarrow> real matrix \<Rightarrow> real matrix"
  lib_multiply_sum_isdf :: "real matrix \<Rightarrow> real matrix \<Rightarrow> real list"
  lib_d_ij_j_ij :: "real matrix \<Rightarrow> real list \<Rightarrow> real matrix"
  lib_ddot_withbuffer :: "real matrix \<Rightarrow> real matrix \<Rightarrow> real matrix \<Rightarrow> real matrix"
  lib_new_jk_buffer :: "isdf \<Rightarrow> error + real list"

text \<open>
  \<^verbatim>\<open>
  def _allocate_jk_buffer(self, dtype=np.float64):
      if self.jk_buffer is not None:
          return
      ...
  \<close>
\<close>

definition allocate_jk_buffer :: "lib_kernels \<Rightarrow> isdf \<Rightarrow> error + isdf" where
  "allocate_jk_buffer K mydf =
     (if mydf_jk_buffer mydf \<noteq> None then Inr mydf
      else (case lib_new_jk_buffer K mydf of
              Inl e \<Rightarrow> Inl e
            | Inr buf \<Rightarrow> Inr (mydf\<lparr>mydf_jk_buffer := Some buf\<rparr>)))"

text \<open>
  The end of \<^verbatim>\<open>_construct_W_incore\<close>.  The kernels \<^verbatim>\<open>_construct_W_multiG\<close> and
  \<^verbatim>\<open>_iFFT_Matrix_Col_InPlace\<close> leave the real matrix \<^verbatim>\<open>W_buf3\<close>, a view of shape
  \<^verbatim>\<open>(nIP_prim, nIP_prim*ncell)\<close>, which is an argument here; then
  \<^verbatim>\<open>
  W.ravel()[:] = W_buf3.ravel()[:]
  mydf.W = W
  W0 = np.zeros((nIP_prim, nIP_prim), dtype=np.float64)
  for i in range(ncell):
          k_begin = i * nIP_prim
          k_end   = (i + 1) * nIP_prim
          W0 += W[:, k_begin:k_end]
  mydf.W0 = W0
  return W
  \<close>
  \<^verbatim>\<open>W\<close> was created with the shape of \<^verbatim>\<open>W_buf3\<close>, so the copy makes it equal to \<^verbatim>\<open>W_buf3\<close>.
\<close>

definition construct_W0 :: "real matrix \<Rightarrow> nat \<Rightarrow> nat \<Rightarrow> real matrix" where
  "construct_W0 W nIP_prim ncell =
     fold (\<lambda>i W0.
            let k_begin = i * nIP_prim;
                k_end = (i + 1) * nIP_prim
            in mat_add W0 (slice_cols W k_begin k_end))
       [0..<ncell] (zeros nIP_prim nIP_prim)"

definition construct_W_incore ::
  "lib_kernels \<Rightarrow> real matrix \<Rightarrow> isdf \<Rightarrow> error + isdf \<times> real matrix" where
  "construct_W_incore K W_buf3 mydf =
     (case allocate_jk_buffer K mydf of
        Inl e \<Rightarrow> Inl e
      | Inr mydf \<Rightarrow>
          let nIP_prim = mydf_nIP_Prim mydf;
              ncell = prod3 (mydf_Ls mydf);
              W = W_buf3;
              mydf = mydf\<lparr>mydf_W := W\<rparr>;
              W0 = construct_W0 W nIP_prim ncell;
              mydf = mydf\<lparr>mydf_W0 := W0\<rparr>
          in Inr (mydf, W))"

text \<open>
  \<^verbatim>\<open>_get_j_kSym(mydf, dm)\<close>.  The projection of the density on the interpolation points and
  its contraction with the metric:
  \<^verbatim>\<open>
  lib.ddot(dm, aoRg_Prim, c=buffer1)
  tmp1 = buffer1
  density_Rg = np.asarray(lib.multiply_sum_isdf(aoRg_Prim, tmp1, out=buffer2), order='C')
  W_0 = mydf.W0
  lib.ddot(W_0, density_Rg.reshape(-1,1), c=bufferW)
  bufferW = bufferW.reshape(-1)
  \<close>
\<close>

definition get_j_density_Rg :: "lib_kernels \<Rightarrow> isdf \<Rightarrow> real matrix \<Rightarrow> real list" where
  "get_j_density_Rg K mydf dm =
     (let aoRg_Prim = mydf_aoRg_Prim mydf;
          tmp1 = lib_ddot K dm aoRg_Prim
      in lib_multiply_sum_isdf K aoRg_Prim tmp1)"

definition get_j_bufferW :: "lib_kernels \<Rightarrow> isdf \<Rightarrow> real matrix \<Rightarrow> real list" where
  "get_j_bufferW K mydf dm =
     (let density_Rg = get_j_density_Rg K mydf dm;
          W_0 = mydf_W0 mydf
      in concat (lib_ddot K W_0 (map (\<lambda>x. [x]) density_Rg)))"

text \<open>
  The block of J for the translation \<open>(ix_q, iy_q, iz_q)\<close>: the buffer is zeroed and the
  loop over \<open>(ix, iy, iz)\<close> adds one product per cell,
  \<^verbatim>\<open>
  ipx = (Ls[0] - ix) % Ls[0]            (ipy, ipz alike)
  loc_p = ipx * Ls[1] * Ls[2] + ipy * Ls[2] + ipz
  buffer_i = aoRg_Prim[loc_p * nao_prim : (loc_p + 1) * nao_prim, :]
  iqx = (ix_q - ix + Ls[0]) % Ls[0]     (iqy, iqz alike)
  loc_q = iqx * Ls[1] * Ls[2] + iqy * Ls[2] + iqz
  buffer_j = aoRg_Prim[loc_q * nao_prim : (loc_q + 1) * nao_prim, :]
  tmp = np.asarray(lib.d_ij_j_ij(buffer_j, bufferW, out=buffer4), order='C')
  lib.ddot_withbuffer(buffer_i, tmp.T, c=bufferJ_block, beta=1, buf=mydf.ddot_buf)
  \<close>
\<close>

definition slice_rows :: "'a matrix \<Rightarrow> nat \<Rightarrow> nat \<Rightarrow> 'a matrix" where
  "slice_rows M r0 r1 = take (r1 - r0) (drop r0 M)"

definition get_j_block_step ::
  "lib_kernels \<Rightarrow> isdf \<Rightarrow> nat \<Rightarrow> real list \<Rightarrow> triple \<Rightarrow> triple \<Rightarrow> real matrix \<Rightarrow> real matrix" where
  "get_j_block_step K mydf nao_prim bufferW q c bufferJ_block =
     (case mydf_Ls mydf of (L0, L1, L2) \<Rightarrow> case q of (ix_q, iy_q, iz_q) \<Rightarrow>
      case c of (ix, iy, iz) \<Rightarrow>
        let aoRg_Prim = mydf_aoRg_Prim mydf;
            ipx = py_mod (int L0 - int ix) L0;
            ipy = py_mod (int L1 - int iy) L1;
            ipz = py_mod (int L2 - int iz) L2;
            loc_p = ipx * L1 * L2 + ipy * L2 + ipz;
            buffer_i = slice_rows aoRg_Prim (loc_p * nao_prim) ((loc_p + 1) * nao_prim);
            iqx = py_mod (int ix_q - int ix + int L0) L0;
            iqy = py_mod (int iy_q - int iy + int L1) L1;
            iqz = py_mod (int iz_q - int iz + int L2) L2;
            loc_q = iqx * L1 * L2 + iqy * L2 + iqz;
            buffer_j = slice_rows aoRg_Prim (loc_q * nao_prim) ((loc_q + 1) * nao_prim);
            tmp = lib_d_ij_j_ij K buffer_j bufferW
        in lib_ddot_withbuffer K buffer_i (transpose tmp) bufferJ_block)"

text \<open>
  The loop over \<open>(ix_q, iy_q, iz_q)\<close> stores each block with
  \<^verbatim>\<open>buffer_J[:, loc_q * nao_prim : (loc_q + 1) * nao_prim] = bufferJ_block\<close>.  \<^verbatim>\<open>buffer_J\<close> is a
  view of shape \<^verbatim>\<open>(nao_prim, nao)\<close> of the scratch buffer; the loop overwrites all of it
  whenever \<open>pack_JK\<close> accepts its shape, and the model starts it at zero.
\<close>

definition get_j_buffer_J_step ::
  "lib_kernels \<Rightarrow> isdf \<Rightarrow> nat \<Rightarrow> real list \<Rightarrow> triple \<Rightarrow> real matrix \<Rightarrow> real matrix" where
  "get_j_buffer_J_step K mydf nao_prim bufferW q buffer_J =
     (case mydf_Ls mydf of (L0, L1, L2) \<Rightarrow>
        let bufferJ_block =
              fold (\<lambda>ix. fold (\<lambda>iy. fold (\<lambda>iz.
                get_j_block_step K mydf nao_prim bufferW q (ix, iy, iz))
              [0..<L2]) [0..<L1]) [0..<L0] (zeros nao_prim nao_prim);
            loc_q = loc_cell (mydf_Ls mydf) q
        in set_slice2 buffer_J 0 (length buffer_J) (loc_q * nao_prim) ((loc_q + 1) * nao_prim)
             bufferJ_block)"

text \<open>
  The whole function: the buffer allocation, the unwrapping of a three-index \<open>dm\<close>,
  \<^verbatim>\<open>assert cell.nao == nao\<close>, the contraction, the loop over the blocks,
  \<^verbatim>\<open>buffer_J = buffer_J * (ngrid / vol)\<close> and \<^verbatim>\<open>J = _pack_JK(buffer_J, Ls, nao_prim, output=None)\<close>.
\<close>

definition get_j_kSym_compute :: "lib_kernels \<Rightarrow> isdf \<Rightarrow> real matrix \<Rightarrow> error + real matrix" where
  "get_j_kSym_compute K mydf dm =
     (case mydf_Ls mydf of (L0, L1, L2) \<Rightarrow>
        let nao = length dm;
            ncell = prod3 (mydf_Ls mydf);
            nao_prim = nao div ncell;
            bufferW = get_j_bufferW K mydf dm;
            buffer_J =
              fold (\<lambda>ix_q. fold (\<lambda>iy_q. fold (\<lambda>iz_q.
                get_j_buffer_J_step K mydf nao_prim bufferW (ix_q, iy_q, iz_q))
              [0..<L2]) [0..<L1]) [0..<L0] (zeros nao_prim nao);
            buffer_J = map (map (\<lambda>x. x * (real (mydf_ngrid mydf) / mydf_vol mydf))) buffer_J
        in pack_JK buffer_J (mydf_Ls mydf) nao_prim None)"

definition get_j_kSym :: "lib_kernels \<Rightarrow> isdf \<Rightarrow> ndarray \<Rightarrow> error + real matrix" where
  "get_j_kSym K mydf dm_arg =
     (case allocate_jk_buffer K mydf of
        Inl e \<Rightarrow> Inl e
      | Inr mydf \<Rightarrow>
          (case unwrap_dm dm_arg of
             Inl e \<Rightarrow> Inl e
           | Inr dm \<Rightarrow>
               if \<not> (mydf_nao mydf = length dm) then Inl AssertionError
               else get_j_kSym_compute K mydf dm))"

section \<open>Column-pivoted QR\<close>

text \<open>
  \<^verbatim>\<open>colpivot_qr(A, max_rank=None, cutoff=1e-14)\<close> of \<^verbatim>\<open>test_isdf_fast.py\<close>, the Python
  version of the pivoted factorisation behind the interpolation-point selection.
  \<^verbatim>\<open>np.linalg.norm\<close> of a row is the square root of the sum of its squared entries.
\<close>

definition np_norm :: "real list \<Rightarrow> real" where
  "np_norm v = sqrt (\<Sum>x\<leftarrow>v. x * x)"

text \<open>
  \<^verbatim>\<open>np.argmax\<close>: the index of the first occurrence of the largest entry.  NumPy raises on
  an empty array; the loop below calls it on \<^verbatim>\<open>AA[j:, :]\<close> with \<open>j < n\<close>, which has a row.
\<close>

fun argmax :: "real list \<Rightarrow> nat" where
  "argmax [] = 0"
| "argmax [x] = 0"
| "argmax (x # y # ys) = (let k = argmax (y # ys) in if (y # ys) ! k \<le> x then 0 else Suc k)"

definition dot :: "real list \<Rightarrow> real list \<Rightarrow> real" where
  "dot u v = (\<Sum>(x, y)\<leftarrow>zip u v. x * y)"

record qr_state =
  qr_AA :: "real matrix"
  qr_Q :: "real matrix"
  qr_R :: "real matrix"
  qr_pivot :: "nat list"
  qr_npt_find :: nat

text \<open>
  The position of the pivot of step \<open>j\<close>:
  \<^verbatim>\<open>
  norms = np.linalg.norm(AA[j:, :], axis=1)
  p = np.argmax(norms) + j
  \<close>
\<close>

definition qr_select :: "nat \<Rightarrow> real matrix \<Rightarrow> nat" where
  "qr_select j AA = (let norms = map np_norm (drop j AA) in argmax norms + j)"

text \<open>
  The swaps \<^verbatim>\<open>AA[[j, p], :] = AA[[p, j], :]\<close>, \<^verbatim>\<open>R[:, [j, p]] = R[:, [p, j]]\<close> and
  \<^verbatim>\<open>pivot[[j, p]] = pivot[[p, j]]\<close>.
\<close>

definition swap :: "nat \<Rightarrow> nat \<Rightarrow> 'a list \<Rightarrow> 'a list" where
  "swap j p xs = xs[j := xs ! p, p := xs ! j]"

text \<open>
  One pass of the loop body.  The second component says whether the pass left the loop
  through \<^verbatim>\<open>break\<close>:
  \<^verbatim>\<open>
  R[j, j] = np.linalg.norm(AA[j, :])
  if R[j, j] < cutoff:
      break
  npt_find += 1
  Q[j, :] = AA[j, :] / R[j, j]
  R[j, j + 1:] = np.dot(AA[j + 1:, :], Q[j, :].T)
  AA[j + 1:, :] -= np.outer(R[j, j + 1:], Q[j, :])
  \<close>
\<close>

definition qr_step :: "real \<Rightarrow> nat \<Rightarrow> qr_state \<Rightarrow> qr_state \<times> bool" where
  "qr_step cutoff j s =
     (let p = qr_select j (qr_AA s);
          AA = swap j p (qr_AA s);
          R = map (swap j p) (qr_R s);
          pivot = swap j p (qr_pivot s);
          Rjj = np_norm (AA ! j);
          R = R[j := (R ! j)[j := Rjj]];
          s1 = s\<lparr>qr_AA := AA, qr_R := R, qr_pivot := pivot\<rparr>
      in if Rjj < cutoff then (s1, True)
         else
           let Qj = map (\<lambda>x. x / Rjj) (AA ! j);
               Q = (qr_Q s)[j := Qj];
               Rj = map (\<lambda>i. if j < i then dot (AA ! i) Qj else R ! j ! i) [0..<length (R ! j)];
               R = R[j := Rj];
               AA = map (\<lambda>i. if j < i then map2 (\<lambda>a q. a - Rj ! i * q) (AA ! i) Qj else AA ! i)
                      [0..<length AA]
           in (\<lparr>qr_AA = AA, qr_Q = Q, qr_R = R, qr_pivot = pivot,
                qr_npt_find = qr_npt_find s + 1\<rparr>, False))"

text \<open>\<^verbatim>\<open>for j in range(min(m, n, max_rank)):\<close> with its \<^verbatim>\<open>break\<close>.\<close>

fun qr_loop :: "real \<Rightarrow> nat list \<Rightarrow> qr_state \<Rightarrow> qr_state" where
  "qr_loop cutoff [] s = s"
| "qr_loop cutoff (j # js) s =
     (case qr_step cutoff j s of (s', brk) \<Rightarrow> if brk then s' else qr_loop cutoff js s')"

text \<open>
  The set-up: \<^verbatim>\<open>m, n = A.shape\<close>, \<^verbatim>\<open>Q = np.zeros((m, m))\<close>, \<^verbatim>\<open>R = np.zeros((m, n))\<close>,
  \<^verbatim>\<open>AA = A.T.copy()\<close> (row \<open>i\<close> of \<open>AA\<close> is column \<open>i\<close> of \<open>A\<close>), \<^verbatim>\<open>pivot = np.arange(n)\<close>,
  \<^verbatim>\<open>max_rank = min(m, n)\<close> when it is \<^verbatim>\<open>None\<close>, \<^verbatim>\<open>npt_find = 0\<close>.  \<open>max_rank\<close> is a Python
  integer; \<^verbatim>\<open>range\<close> of a negative number is empty.  The function returns
  \<^verbatim>\<open>Q.T, R, pivot, npt_find\<close>; the final state holds all four.
\<close>

definition qr_max_rank :: "nat \<Rightarrow> nat \<Rightarrow> int option \<Rightarrow> int" where
  "qr_max_rank m n max_rank = (case max_rank of None \<Rightarrow> min (int m) (int n) | Some r \<Rightarrow> r)"

definition qr_init :: "nat \<Rightarrow> nat \<Rightarrow> real matrix \<Rightarrow> qr_state" where
  "qr_init m n A =
     \<lparr>qr_AA = map (\<lambda>i. map (\<lambda>row. row ! i) A) [0..<n],
      qr_Q = zeros m m, qr_R = zeros m n, qr_pivot = [0..<n], qr_npt_find = 0\<rparr>"

definition colpivot_qr :: "nat \<Rightarrow> nat \<Rightarrow> real matrix \<Rightarrow> int option \<Rightarrow> real \<Rightarrow> qr_state" where
  "colpivot_qr m n A max_rank cutoff =
     (let max_rank = qr_max_rank m n max_rank;
          steps = nat (min (int m) (min (int n) max_rank))
      in qr_loop cutoff [0..<steps] (qr_init m n A))"

section \<open>Properties of the interpolation-point selection\<close>

lemma sort_any_listing:
  fixes xs ys :: "nat list"
  assumes "distinct ys" and "set ys = set xs"
  shows "sort ys = sort (remdups xs)"
proof -
  have "mset ys = mset (remdups xs)"
    using assms by (simp add: set_eq_iff_mset_eq_distinct [symmetric])
  then show ?thesis
    by (metis mset_sort sorted_sort properties_for_sort)
qed

lemma count_list_distinct:
  "distinct xs \<Longrightarrow> x \<in> set xs \<Longrightarrow> count_list xs x = 1"
  by (induction xs) auto

lemma ravel_inj_prim:
  fixes q1 q2 :: nat
  assumes "b < q1" "c < q2" "b' < q1" "c' < q2"
    and "a * q1 * q2 + b * q2 + c = a' * q1 * q2 + b' * q2 + c'"
  shows "a = a' \<and> b = b' \<and> c = c'"
proof -
  have e: "(a * q1 + b) * q2 + c = (a' * q1 + b') * q2 + c'"
    using assms(5) by (simp add: algebra_simps)
  have "((a * q1 + b) * q2 + c) mod q2 = c" "((a' * q1 + b') * q2 + c') mod q2 = c'"
    using assms by simp_all
  with e have c: "c = c'" by metis
  have "((a * q1 + b) * q2 + c) div q2 = a * q1 + b"
       "((a' * q1 + b') * q2 + c') div q2 = a' * q1 + b'"
    using assms by simp_all
  with e have ab: "a * q1 + b = a' * q1 + b'" by metis
  have "(a * q1 + b) mod q1 = b" "(a' * q1 + b') mod q1 = b'"
    using assms by simp_all
  with ab have b: "b = b'" by metis
  have "(a * q1 + b) div q1 = a" "(a' * q1 + b') div q1 = a'"
    using assms by simp_all
  with ab have "a = a'" by metis
  with b c show ?thesis by simp
qed

lemma grid_prim_ravel_id_eq_iff:
  assumes "0 < fst (snd (mesh_prim_of mesh Ls))" "0 < snd (snd (mesh_prim_of mesh Ls))"
  shows "grid_prim_ravel_id mesh Ls g = grid_prim_ravel_id mesh Ls g'
         \<longleftrightarrow> grid_prim_id mesh Ls g = grid_prim_id mesh Ls g'"
proof
  assume "grid_prim_id mesh Ls g = grid_prim_id mesh Ls g'"
  then show "grid_prim_ravel_id mesh Ls g = grid_prim_ravel_id mesh Ls g'"
    by (simp add: grid_prim_ravel_id_def)
next
  assume e: "grid_prim_ravel_id mesh Ls g = grid_prim_ravel_id mesh Ls g'"
  obtain q0 q1 q2 where q: "mesh_prim_of mesh Ls = (q0, q1, q2)"
    by (cases "mesh_prim_of mesh Ls") auto
  obtain p0 p1 p2 where p: "pnt_id mesh g = (p0, p1, p2)"
    by (cases "pnt_id mesh g") auto
  obtain r0 r1 r2 where r: "pnt_id mesh g' = (r0, r1, r2)"
    by (cases "pnt_id mesh g'") auto
  from assms q have pos: "0 < q1" "0 < q2" by simp_all
  from e have "(p0 mod q0) * q1 * q2 + (p1 mod q1) * q2 + p2 mod q2
             = (r0 mod q0) * q1 * q2 + (r1 mod q1) * q2 + r2 mod q2"
    by (simp add: grid_prim_ravel_id_def grid_prim_id_def pnt_prim_ravel_id_def
        pnt_prim_id_def q p r)
  with pos have "p0 mod q0 = r0 mod q0 \<and> p1 mod q1 = r1 mod q1 \<and> p2 mod q2 = r2 mod q2"
    by (intro ravel_inj_prim [where ?q1.0 = q1 and ?q2.0 = q2]) simp_all
  then show "grid_prim_id mesh Ls g = grid_prim_id mesh Ls g'"
    by (simp add: grid_prim_id_def pnt_prim_id_def q p r)
qed

text \<open>
  C5.  The list returned by \<open>select_IP\<close> is strictly increasing (sorted, no duplicates);
  it holds exactly the primitive-cell ravel indices of the selected supercell grid points;
  and selected grid points that are translation images of one primitive-cell point (their
  \<open>grid_prim_id\<close> agree) share one entry, which occurs exactly once in the list, while
  grid points over different primitive-cell points get different entries.
\<close>

theorem select_IP_sorted_dedup:
  assumes "0 < fst (snd (mesh_prim_of mesh Ls))" "0 < snd (snd (mesh_prim_of mesh Ls))"
  shows "sorted_wrt (<) (select_IP mesh Ls IP_GlobalID)
       \<and> set (select_IP mesh Ls IP_GlobalID) = grid_prim_ravel_id mesh Ls ` set IP_GlobalID
       \<and> (\<forall>g \<in> set IP_GlobalID.
            count_list (select_IP mesh Ls IP_GlobalID) (grid_prim_ravel_id mesh Ls g) = 1)
       \<and> (\<forall>g \<in> set IP_GlobalID. \<forall>g' \<in> set IP_GlobalID.
            (grid_prim_ravel_id mesh Ls g = grid_prim_ravel_id mesh Ls g')
            = (grid_prim_id mesh Ls g = grid_prim_id mesh Ls g'))"
proof -
  let ?res = "select_IP mesh Ls IP_GlobalID"
  have d: "distinct ?res" and s: "sorted ?res"
    by (simp_all add: select_IP_def)
  have st: "set ?res = grid_prim_ravel_id mesh Ls ` set IP_GlobalID"
    by (simp add: select_IP_def)
  have sw: "sorted_wrt (<) ?res"
    using d s by (simp add: strict_sorted_iff)
  have c: "\<forall>g \<in> set IP_GlobalID. count_list ?res (grid_prim_ravel_id mesh Ls g) = 1"
  proof
    fix g assume "g \<in> set IP_GlobalID"
    then have "grid_prim_ravel_id mesh Ls g \<in> set ?res" using st by blast
    with d show "count_list ?res (grid_prim_ravel_id mesh Ls g) = 1"
      by (simp add: count_list_distinct)
  qed
  show ?thesis
    using sw st c grid_prim_ravel_id_eq_iff [OF assms] by blast
qed

text \<open>
  A run on a 4 x 4 x 4 mesh with \<open>Ls = (1, 1, 2)\<close>: grid points 1 and 3 are translation
  images (z = 1 and z = 3 over a primitive z-axis of 2 points) and give the single entry 1.
\<close>

theorem select_IP_sorted_dedup_witness:
  "select_IP (4, 4, 4) (1, 1, 2) [3, 21, 1, 0] = [0, 1, 11]
   \<and> sorted_wrt (<) (select_IP (4, 4, 4) (1, 1, 2) [3, 21, 1, 0])
   \<and> count_list (select_IP (4, 4, 4) (1, 1, 2) [3, 21, 1, 0])
        (grid_prim_ravel_id (4, 4, 4) (1, 1, 2) 3) = 1"
proof -
  have h: "0 < fst (snd (mesh_prim_of (4, 4, 4) (1, 1, 2)))"
          "0 < snd (snd (mesh_prim_of (4, 4, 4) (1, 1, 2)))"
    by (simp_all add: mesh_prim_of_def)
  have e: "select_IP (4, 4, 4) (1, 1, 2) [3, 21, 1, 0] = [0, 1, 11]"
    by (simp add: select_IP_def grid_prim_ravel_id_def grid_prim_id_def pnt_prim_ravel_id_def
        pnt_prim_id_def pnt_id_def mesh_prim_of_def)
  show ?thesis
    using select_IP_sorted_dedup [OF h, of "[3, 21, 1, 0]"] e by simp
qed

section \<open>Loops as folds\<close>

lemma fold_product:
  "fold (\<lambda>x. fold (\<lambda>y. f x y) ys) xs = fold (\<lambda>(x, y). f x y) (List.product xs ys)"
  by (induction xs) (simp_all add: fold_map comp_def)

lemma fold_product3:
  "fold (\<lambda>x. fold (\<lambda>y. fold (\<lambda>z. f x y z) zs) ys) xs
   = fold (\<lambda>(x, y, z). f x y z) (List.product xs (List.product ys zs))"
proof -
  have "(\<lambda>x. fold (\<lambda>y. fold (\<lambda>z. f x y z) zs) ys)
        = (\<lambda>x. fold (\<lambda>(y, z). f x y z) (List.product ys zs))"
    by (simp add: fold_product)
  then have "fold (\<lambda>x. fold (\<lambda>y. fold (\<lambda>z. f x y z) zs) ys) xs
      = fold (\<lambda>x. fold (\<lambda>p. (case p of (y, z) \<Rightarrow> f x y z)) (List.product ys zs)) xs"
    by simp
  also have "\<dots> = fold (\<lambda>(x, p). (case p of (y, z) \<Rightarrow> f x y z)) (List.product xs (List.product ys zs))"
    by (rule fold_product)
  finally show ?thesis by (simp add: case_prod_unfold)
qed


lemma fold_writes:
  assumes inv: "\<And>k s. k \<in> set ks \<Longrightarrow> Inv s \<Longrightarrow> Inv (f k s)"
    and step: "\<And>k s. k \<in> set ks \<Longrightarrow> Inv s \<Longrightarrow> obs (f k s) = (if W k then v k else obs s)"
    and same: "\<And>k. k \<in> set ks \<Longrightarrow> W k \<Longrightarrow> v k = c"
    and "Inv s0"
  shows "Inv (fold f ks s0) \<and> obs (fold f ks s0) = (if \<exists>k \<in> set ks. W k then c else obs s0)"
  using assms
proof (induction ks arbitrary: s0)
  case Nil
  then show ?case by simp
next
  case (Cons k ks)
  have i: "Inv (f k s0)" using Cons.prems by simp
  have o: "obs (f k s0) = (if W k then v k else obs s0)" using Cons.prems by simp
  have "Inv (fold f ks (f k s0)) \<and>
        obs (fold f ks (f k s0)) = (if \<exists>k \<in> set ks. W k then c else obs (f k s0))"
    using Cons.prems i by (intro Cons.IH) simp_all
  moreover have "W k \<Longrightarrow> v k = c" using Cons.prems(3) by simp
  ultimately show ?case using o by auto
qed

lemma fold_counter_enumerate:
  "fold (\<lambda>t st. case st of (res, n) \<Rightarrow> (res[p t := n], n + 1)) ts (res, c)
   = (fold (\<lambda>nt res. res[p (snd nt) := fst nt]) (enumerate c ts) res, c + length ts)"
  by (induction ts arbitrary: res c) simp_all

section \<open>Properties of the grid permutation\<close>

lemma py_mod_less: "0 < n \<Longrightarrow> py_mod a n < n"
  by (simp add: py_mod_def nat_less_iff)

lemma py_mod_neg_inj:
  assumes "i < n" "j < n" "py_mod (int n - int i - s) n = py_mod (int n - int j - s) n"
  shows "i = j"
proof -
  have n: "0 < int n" using assms by simp
  have "0 \<le> (int n - int i - s) mod int n" "0 \<le> (int n - int j - s) mod int n"
    using n by simp_all
  then have "(int n - int i - s) mod int n = (int n - int j - s) mod int n"
    using assms(3) unfolding py_mod_def by (metis nat_eq_iff2)
  then have "int n dvd (int n - int i - s) - (int n - int j - s)"
    by (simp add: mod_eq_dvd_iff)
  then have d: "int n dvd int j - int i" by (simp add: algebra_simps)
  have "\<bar>int j - int i\<bar> < int n" using assms by simp
  with d have "int j - int i = 0"
    using dvd_imp_le_int [of "int j - int i" "int n"] by auto
  then show ?thesis by simp
qed


lemma set_cells: "set (cells (n0, n1, n2)) = {(i0, i1, i2). i0 < n0 \<and> i1 < n1 \<and> i2 < n2}"
  by (auto simp: cells_def)

lemma distinct_cells: "distinct (cells dims)"
  by (cases dims) (auto simp: cells_def intro!: distinct_product)

lemma length_cells: "length (cells (n0, n1, n2)) = n0 * n1 * n2"
  by (simp add: cells_def)

lemma ravel_less:
  fixes n0 n1 n2 :: nat
  assumes "i0 < n0" "i1 < n1" "i2 < n2"
  shows "i0 * n1 * n2 + i1 * n2 + i2 < n0 * n1 * n2"
proof -
  have "i1 * n2 + i2 < n1 * n2"
  proof -
    have "i1 * n2 + i2 < i1 * n2 + n2" using assms by simp
    also have "\<dots> = (Suc i1) * n2" by simp
    also have "\<dots> \<le> n1 * n2" using assms by (intro mult_le_mono1) simp
    finally show ?thesis .
  qed
  then have "i0 * (n1 * n2) + (i1 * n2 + i2) < i0 * (n1 * n2) + n1 * n2" by simp
  also have "\<dots> = (Suc i0) * (n1 * n2)" by simp
  also have "\<dots> \<le> n0 * (n1 * n2)" using assms by (intro mult_le_mono1) simp
  finally show ?thesis by (simp add: algebra_simps)
qed

lemma cells_nth_ravel:
  assumes "i0 < n0" "i1 < n1" "i2 < n2"
  shows "cells (n0, n1, n2) ! (i0 * n1 * n2 + i1 * n2 + i2) = (i0, i1, i2)"
proof -
  let ?n = "i0 * n1 * n2 + i1 * n2 + i2"
  have lt: "?n < n0 * n1 * n2" using assms by (rule ravel_less)
  have r: "i1 * n2 + i2 < n1 * n2"
    using ravel_less [of 0 1 i1 n1 i2 n2] assms by simp
  have n: "?n = i0 * (n1 * n2) + (i1 * n2 + i2)" by (simp add: algebra_simps)
  have d: "?n div (n1 * n2) = i0" using r assms by (simp add: n)
  have m: "?n mod (n1 * n2) = i1 * n2 + i2" using r assms by (simp add: n)
  have "cells (n0, n1, n2) ! ?n
      = ([0..<n0] ! (?n div (n1 * n2)), List.product [0..<n1] [0..<n2] ! (?n mod (n1 * n2)))"
    unfolding cells_def using lt by (simp add: product_nth algebra_simps)
  also have "\<dots> = (i0, List.product [0..<n1] [0..<n2] ! (i1 * n2 + i2))"
    using assms by (simp only: d m) simp
  also have "List.product [0..<n1] [0..<n2] ! (i1 * n2 + i2) = (i1, i2)"
    using assms r by (simp add: product_nth)
  finally show ?thesis .
qed

lemma permutation_loc_less:
  assumes "ix < nx" "iy < ny" "iz < nz"
  shows "permutation_loc nx ny nz sx sy sz (ix, iy, iz) < nx * ny * nz"
  unfolding permutation_loc_def Let_def prod.case
  using assms by (intro ravel_less py_mod_less) simp_all

lemma permutation_loc_range:
  assumes "t \<in> set (cells (nx, ny, nz))"
  shows "permutation_loc nx ny nz sx sy sz t < nx * ny * nz"
proof -
  obtain a b c where t: "t = (a, b, c)" by (metis prod_cases3)
  show ?thesis using assms unfolding t by (auto simp: set_cells intro: permutation_loc_less)
qed

lemma permutation_loc_inj:
  assumes "ix < nx" "iy < ny" "iz < nz" "jx < nx" "jy < ny" "jz < nz"
    and "permutation_loc nx ny nz sx sy sz (ix, iy, iz) = permutation_loc nx ny nz sx sy sz (jx, jy, jz)"
  shows "ix = jx \<and> iy = jy \<and> iz = jz"
proof -
  have "py_mod (int nx - int ix - sx) nx = py_mod (int nx - int jx - sx) nx
      \<and> py_mod (int ny - int iy - sy) ny = py_mod (int ny - int jy - sy) ny
      \<and> py_mod (int nz - int iz - sz) nz = py_mod (int nz - int jz - sz) nz"
    using assms by (intro ravel_inj_prim [where ?q1.0 = ny and ?q2.0 = nz])
      (simp_all add: permutation_loc_def py_mod_less)
  then show ?thesis using assms by (auto dest: py_mod_neg_inj)
qed

lemma permutation_loc_inj_cells:
  assumes "t \<in> set (cells (nx, ny, nz))" "t' \<in> set (cells (nx, ny, nz))"
    and "permutation_loc nx ny nz sx sy sz t = permutation_loc nx ny nz sx sy sz t'"
  shows "t = t'"
proof -
  obtain a b c where t: "t = (a, b, c)" by (metis prod_cases3)
  obtain a' b' c' where t': "t' = (a', b', c')" by (metis prod_cases3)
  have "a < nx" "b < ny" "c < nz" "a' < nx" "b' < ny" "c' < nz"
    using assms(1,2) unfolding t t' set_cells by simp_all
  then have "a = a' \<and> b = b' \<and> c = c'"
    using assms(3) unfolding t t' by (rule permutation_loc_inj)
  then show ?thesis by (simp add: t t')
qed

lemma in_enumerateD:
  "nt \<in> set (enumerate 0 xs) \<Longrightarrow> fst nt < length xs \<and> xs ! fst nt = snd nt"
  using in_set_enumerate_eq [of nt 0 xs] by simp

lemma permutation_fold:
  "permutation nx ny nz sx sy sz
   = fold (\<lambda>nt res. res[permutation_loc nx ny nz sx sy sz (snd nt) := fst nt])
       (enumerate 0 (cells (nx, ny, nz))) (replicate (nx * ny * nz) 0)"
proof -
  have b: "(\<lambda>(ix, iy, iz). permutation_body nx ny nz sx sy sz ix iy iz)
         = (\<lambda>t st. case st of (res, n) \<Rightarrow> (res[permutation_loc nx ny nz sx sy sz t := n], n + 1))"
    by (auto simp: permutation_body_def fun_eq_iff)
  show ?thesis
    unfolding permutation_def fold_product3 b fold_counter_enumerate cells_def by simp
qed

lemma permutation_length: "length (permutation nx ny nz sx sy sz) = nx * ny * nz"
  unfolding permutation_fold by (rule fold_invariant [where Q = "\<lambda>_. True"]) simp_all

lemma permutation_nth_at:
  assumes "n < nx * ny * nz"
  shows "permutation nx ny nz sx sy sz ! permutation_loc nx ny nz sx sy sz (cells (nx, ny, nz) ! n) = n"
proof -
  let ?ts = "cells (nx, ny, nz)"
  let ?p = "permutation_loc nx ny nz sx sy sz"
  let ?N = "nx * ny * nz"
  have len: "length ?ts = ?N" by (rule length_cells)
  have rng: "?p t < ?N" if "t \<in> set ?ts" for t
    using that by (rule permutation_loc_range)
  have inj: "t = t'" if "t \<in> set ?ts" "t' \<in> set ?ts" "?p t = ?p t'" for t t'
    using that by (rule permutation_loc_inj_cells)
  have tn: "?ts ! n \<in> set ?ts" using assms len by simp
  have "length (fold (\<lambda>nt res. res[?p (snd nt) := fst nt]) (enumerate 0 ?ts) (replicate ?N 0)) = ?N
      \<and> fold (\<lambda>nt res. res[?p (snd nt) := fst nt]) (enumerate 0 ?ts) (replicate ?N 0) ! ?p (?ts ! n)
        = (if \<exists>nt \<in> set (enumerate 0 ?ts). ?p (snd nt) = ?p (?ts ! n) then n
           else replicate ?N 0 ! ?p (?ts ! n))"
  proof (rule fold_writes [where Inv = "\<lambda>res. length res = ?N" and v = fst
        and W = "\<lambda>nt. ?p (snd nt) = ?p (?ts ! n)" and obs = "\<lambda>res. res ! ?p (?ts ! n)"])
    fix nt :: "nat \<times> triple" and res :: "nat list"
    assume nt: "nt \<in> set (enumerate 0 ?ts)" and l: "length res = ?N"
    show "length (res[?p (snd nt) := fst nt]) = ?N" using l by simp
    have "snd nt \<in> set ?ts" using in_enumerateD [OF nt] by (metis nth_mem)
    then have "?p (snd nt) < length res" using rng l by simp
    then show "res[?p (snd nt) := fst nt] ! ?p (?ts ! n)
        = (if ?p (snd nt) = ?p (?ts ! n) then fst nt else res ! ?p (?ts ! n))"
      by (simp add: nth_list_update)
  next
    fix nt :: "nat \<times> triple"
    assume nt: "nt \<in> set (enumerate 0 ?ts)" and e: "?p (snd nt) = ?p (?ts ! n)"
    have a: "fst nt < length ?ts" "?ts ! fst nt = snd nt"
      using in_enumerateD [OF nt] by simp_all
    then have "snd nt \<in> set ?ts" by (metis nth_mem)
    with e tn have "snd nt = ?ts ! n" using inj by blast
    with a show "fst nt = n"
      using distinct_cells [of "(nx, ny, nz)"] assms len by (simp add: nth_eq_iff_index_eq)
  next
    show "length (replicate ?N (0::nat)) = ?N" by simp
  qed
  moreover have "(n, ?ts ! n) \<in> set (enumerate 0 ?ts)"
    using assms len by (simp add: in_set_enumerate_eq)
  ultimately show ?thesis
    unfolding permutation_fold by force
qed


lemma list_perm_of_nth:
  fixes res :: "nat list"
  assumes len: "length res = N" and hit: "\<And>n. n < N \<Longrightarrow> \<exists>i<N. res ! i = n"
  shows "set res = {0..<N} \<and> distinct res"
proof -
  have sub: "{0..<N} \<subseteq> set res"
  proof
    fix n assume "n \<in> {0..<N}"
    then obtain i where "i < N" "res ! i = n" using hit by auto
    then show "n \<in> set res" using len by (metis nth_mem)
  qed
  have "card (set res) \<le> N" using card_length [of res] len by simp
  moreover have "N \<le> card (set res)"
    using card_mono [OF finite_set sub] by simp
  ultimately have c: "card (set res) = N" by simp
  then have "{0..<N} = set res"
    using sub by (intro card_subset_eq) simp_all
  moreover have "distinct res" using c len by (simp add: card_distinct)
  ultimately show ?thesis by simp
qed

lemma permutation_loc_onto:
  assumes "pos < nx * ny * nz"
  shows "\<exists>!t. t \<in> set (cells (nx, ny, nz)) \<and> permutation_loc nx ny nz sx sy sz t = pos"
proof -
  let ?ts = "cells (nx, ny, nz)"
  let ?p = "permutation_loc nx ny nz sx sy sz"
  let ?N = "nx * ny * nz"
  have inj: "inj_on ?p (set ?ts)"
    by (rule inj_onI) (rule permutation_loc_inj_cells)
  have "card (?p ` set ?ts) = card (set ?ts)" using inj by (rule card_image)
  also have "\<dots> = ?N" using distinct_cells [of "(nx, ny, nz)"] by (simp add: distinct_card length_cells)
  finally have c: "card (?p ` set ?ts) = card {0..<?N}" by simp
  have "?p ` set ?ts \<subseteq> {0..<?N}"
    using permutation_loc_range by fastforce
  then have "?p ` set ?ts = {0..<?N}" using c by (intro card_subset_eq) simp_all
  then have "pos \<in> ?p ` set ?ts" using assms by simp
  then obtain t where t: "t \<in> set ?ts" "?p t = pos" by blast
  show ?thesis
  proof (rule ex1I [of _ t])
    show "t \<in> set ?ts \<and> ?p t = pos" using t by simp
  next
    fix t' assume "t' \<in> set ?ts \<and> ?p t' = pos"
    then show "t' = t" using t by (intro permutation_loc_inj_cells [of t' nx ny nz t sx sy sz]) simp_all
  qed
qed

text \<open>
  C9.  For all \<open>nx\<close>, \<open>ny\<close>, \<open>nz\<close> (in particular all of them at least 1) and all integer
  shifts, the array returned by \<open>permutation\<close> has \<open>nx * ny * nz\<close> entries, no entry twice,
  and exactly the values \<open>0 ..< nx * ny * nz\<close>: it is a permutation.  The position written
  for the loop indices \<open>(ix, iy, iz)\<close> is in range and ends up holding their row-major
  counter, and every position is written by exactly one triple of loop indices.
\<close>

theorem permutation_is_permutation:
  "length (permutation nx ny nz sx sy sz) = nx * ny * nz
   \<and> distinct (permutation nx ny nz sx sy sz)
   \<and> set (permutation nx ny nz sx sy sz) = {0..<nx * ny * nz}
   \<and> (\<forall>ix<nx. \<forall>iy<ny. \<forall>iz<nz.
         permutation_loc nx ny nz sx sy sz (ix, iy, iz) < nx * ny * nz
       \<and> permutation nx ny nz sx sy sz ! permutation_loc nx ny nz sx sy sz (ix, iy, iz)
           = ix * ny * nz + iy * nz + iz)
   \<and> (\<forall>pos<nx * ny * nz. \<exists>!t. t \<in> set (cells (nx, ny, nz))
           \<and> permutation_loc nx ny nz sx sy sz t = pos)"
proof -
  let ?P = "permutation nx ny nz sx sy sz"
  let ?p = "permutation_loc nx ny nz sx sy sz"
  let ?N = "nx * ny * nz"
  have len: "length ?P = ?N" by (rule permutation_length)
  have at: "?p (ix, iy, iz) < ?N \<and> ?P ! ?p (ix, iy, iz) = ix * ny * nz + iy * nz + iz"
    if "ix < nx" "iy < ny" "iz < nz" for ix iy iz
    using that permutation_nth_at [of "ix * ny * nz + iy * nz + iz" nx ny nz sx sy sz]
    by (simp add: cells_nth_ravel ravel_less permutation_loc_less)
  have hit: "\<exists>i<?N. ?P ! i = n" if "n < ?N" for n
  proof -
    have "cells (nx, ny, nz) ! n \<in> set (cells (nx, ny, nz))"
      using that by (simp add: length_cells)
    then have "?p (cells (nx, ny, nz) ! n) < ?N"
      by (rule permutation_loc_range)
    then show ?thesis using permutation_nth_at [OF that] by blast
  qed
  have "set ?P = {0..<?N} \<and> distinct ?P"
    using len hit by (rule list_perm_of_nth)
  then show ?thesis
    using len at permutation_loc_onto by blast
qed

theorem permutation_is_permutation_witness:
  "permutation 2 2 3 0 0 1 = [2, 1, 0, 5, 4, 3, 8, 7, 6, 11, 10, 9]
   \<and> distinct (permutation 2 2 3 0 0 1) \<and> set (permutation 2 2 3 0 0 1) = {0..<2 * 2 * 3}
   \<and> permutation 2 2 3 0 0 1 ! permutation_loc 2 2 3 0 0 1 (1, 0, 2) = 1 * 2 * 3 + 0 * 3 + 2"
proof -
  note t = permutation_is_permutation [of 2 2 3 0 0 1]
  have e: "permutation 2 2 3 0 0 1 = [2, 1, 0, 5, 4, 3, 8, 7, 6, 11, 10, 9]"
    by code_simp
  have d: "distinct (permutation 2 2 3 0 0 1)"
    by (rule t [THEN conjunct2, THEN conjunct1])
  have s: "set (permutation 2 2 3 0 0 1) = {0..<2 * 2 * 3}"
    by (rule t [THEN conjunct2, THEN conjunct2, THEN conjunct1])
  have n: "permutation 2 2 3 0 0 1 ! permutation_loc 2 2 3 0 0 1 (1, 0, 2) = 1 * 2 * 3 + 0 * 3 + 2"
    using t [THEN conjunct2, THEN conjunct2, THEN conjunct2, THEN conjunct1, rule_format, of 1 0 2]
    by simp
  show ?thesis using e d s n by (intro conjI)
qed

section \<open>Properties of matrices and blocks\<close>

lemma has_shape_nth: "has_shape M r c \<Longrightarrow> i < r \<Longrightarrow> length (M ! i) = c"
  by (simp add: has_shape_def list_all_length)

lemma has_shape_length: "has_shape M r c \<Longrightarrow> length M = r"
  by (simp add: has_shape_def)

lemma has_shapeI:
  "length M = r \<Longrightarrow> (\<And>i. i < r \<Longrightarrow> length (M ! i) = c) \<Longrightarrow> has_shape M r c"
  by (simp add: has_shape_def list_all_length)

lemma has_shape_zeros: "has_shape (zeros r c) r c"
  by (simp add: has_shape_def zeros_def list_all_length)

lemma zeros_nth: "i < r \<Longrightarrow> j < c \<Longrightarrow> zeros r c ! i ! j = 0"
  by (simp add: zeros_def)

lemma set_slice2_length: "length (set_slice2 M r0 r1 c0 c1 B) = length M"
  by (simp add: set_slice2_def)

lemma set_slice2_row_length:
  "i < length M \<Longrightarrow> length (set_slice2 M r0 r1 c0 c1 B ! i) = length (M ! i)"
  by (simp add: set_slice2_def)

lemma set_slice2_shape: "has_shape M r c \<Longrightarrow> has_shape (set_slice2 M r0 r1 c0 c1 B) r c"
  by (rule has_shapeI)
    (simp_all add: set_slice2_length set_slice2_row_length has_shape_length has_shape_nth)

lemma set_slice2_nth:
  assumes "i < length M" "j < length (M ! i)"
  shows "set_slice2 M r0 r1 c0 c1 B ! i ! j
       = (if r0 \<le> i \<and> i < r1 \<and> c0 \<le> j \<and> j < c1 then B ! (i - r0) ! (j - c0) else M ! i ! j)"
  using assms by (simp add: set_slice2_def)

lemma slice_cols_nth:
  assumes "a < length M" "c0 + b < length (M ! a)" "b < c1 - c0"
  shows "slice_cols M c0 c1 ! a ! b = M ! a ! (c0 + b)"
  using assms by (simp add: slice_cols_def)

lemma slice2_length:
  assumes "r1 \<le> length M"
  shows "length (slice2 M r0 r1 c0 c1) = r1 - r0"
  using assms by (simp add: slice2_def)

lemma slice2_row_length:
  assumes "r1 \<le> length M" "a < r1 - r0" "c1 \<le> length (M ! (r0 + a))"
  shows "length (slice2 M r0 r1 c0 c1 ! a) = c1 - c0"
  using assms by (simp add: slice2_def)

lemma slice2_nth:
  assumes "r1 \<le> length M" "a < r1 - r0" "c1 \<le> length (M ! (r0 + a))" "b < c1 - c0"
  shows "slice2 M r0 r1 c0 c1 ! a ! b = M ! (r0 + a) ! (c0 + b)"
  using assms by (simp add: slice2_def)

section \<open>Properties of the block-circulant packing\<close>

lemma loc_cell_less:
  assumes "t \<in> set (cells Ls)"
  shows "loc_cell Ls t < prod3 Ls"
proof -
  obtain L0 L1 L2 where L: "Ls = (L0, L1, L2)" by (metis prod_cases3)
  obtain a b c where t: "t = (a, b, c)" by (metis prod_cases3)
  show ?thesis using assms unfolding L t
    by (simp add: set_cells loc_cell_def prod3_def ravel_less)
qed

lemma loc_cell_inj:
  assumes "t \<in> set (cells Ls)" "t' \<in> set (cells Ls)" "loc_cell Ls t = loc_cell Ls t'"
  shows "t = t'"
proof -
  obtain L0 L1 L2 where L: "Ls = (L0, L1, L2)" by (metis prod_cases3)
  obtain a b c where t: "t = (a, b, c)" by (metis prod_cases3)
  obtain a' b' c' where t': "t' = (a', b', c')" by (metis prod_cases3)
  have "b < L1" "c < L2" "b' < L1" "c' < L2"
    using assms(1,2) unfolding L t t' set_cells by simp_all
  moreover have "a * L1 * L2 + b * L2 + c = a' * L1 * L2 + b' * L2 + c'"
    using assms(3) unfolding L t t' by (simp add: loc_cell_def)
  ultimately have "a = a' \<and> b = b' \<and> c = c'" by (rule ravel_inj_prim)
  then show ?thesis by (simp add: t t')
qed

lemma cell_diff_in_cells:
  assumes "row \<in> set (cells Ls)" "col \<in> set (cells Ls)"
  shows "cell_diff Ls col row \<in> set (cells Ls)"
proof -
  obtain L0 L1 L2 where L: "Ls = (L0, L1, L2)" by (metis prod_cases3)
  obtain a b c where t: "row = (a, b, c)" by (metis prod_cases3)
  obtain a' b' c' where t': "col = (a', b', c')" by (metis prod_cases3)
  have "0 < L0" "0 < L1" "0 < L2" using assms(1) unfolding L t set_cells by auto
  then show ?thesis unfolding L t t' by (simp add: set_cells cell_diff_def py_mod_less)
qed

lemma fold_cells:
  "fold (\<lambda>x. fold (\<lambda>y. fold (\<lambda>z. G (x, y, z)) [0..<n2]) [0..<n1]) [0..<n0]
   = fold G (cells (n0, n1, n2))"
proof -
  have "(\<lambda>(x, y, z). G (x, y, z)) = G" by (simp add: fun_eq_iff)
  then show ?thesis
    using fold_product3 [of "\<lambda>x y z. G (x, y, z)" "[0..<n2]" "[0..<n1]" "[0..<n0]"]
    by (simp add: cells_def)
qed

lemma pack_JK_loops_fold:
  "pack_JK_loops input_mat Ls nao_prim out0
   = fold (\<lambda>rc. pack_JK_body input_mat Ls nao_prim (fst rc) (snd rc))
       (List.product (cells Ls) (cells Ls)) out0"
proof -
  obtain L0 L1 L2 where L: "Ls = (L0, L1, L2)" by (metis prod_cases3)
  have inner: "fold (\<lambda>ix_col. fold (\<lambda>iy_col. fold (\<lambda>iz_col.
            pack_JK_body input_mat Ls nao_prim row (ix_col, iy_col, iz_col))
          [0..<L2]) [0..<L1]) [0..<L0]
        = fold (pack_JK_body input_mat Ls nao_prim row) (cells Ls)" for row
    unfolding L by (rule fold_cells)
  have "pack_JK_loops input_mat Ls nao_prim out0
      = fold (\<lambda>ix_row. fold (\<lambda>iy_row. fold (\<lambda>iz_row.
          fold (pack_JK_body input_mat Ls nao_prim (ix_row, iy_row, iz_row)) (cells Ls))
        [0..<L2]) [0..<L1]) [0..<L0] out0"
    unfolding pack_JK_loops_def L prod.case inner [unfolded L] ..
  also have "\<dots> = fold (\<lambda>row. fold (pack_JK_body input_mat Ls nao_prim row) (cells Ls))
        (cells Ls) out0"
    unfolding L
    by (simp only: fold_cells [of "\<lambda>row. fold (pack_JK_body input_mat (L0, L1, L2) nao_prim row)
          (cells (L0, L1, L2))"])
  also have "\<dots> = fold (\<lambda>(row, col). pack_JK_body input_mat Ls nao_prim row col)
        (List.product (cells Ls) (cells Ls)) out0"
    unfolding fold_product ..
  finally show ?thesis by (simp add: case_prod_unfold)
qed


lemma block_index_less:
  fixes n :: nat
  assumes "r < R" "a < n"
  shows "r * n + a < R * n"
proof -
  have "r * n + a < (Suc r) * n" using assms by simp
  also have "\<dots> \<le> R * n" using assms by (intro mult_le_mono1) simp
  finally show ?thesis .
qed

lemma block_index_unique:
  fixes n :: nat
  assumes "a < n" "r * n \<le> r0 * n + a" "r0 * n + a < (r + 1) * n"
  shows "r = r0"
proof -
  have "(r0 * n + a) div n = r0" using assms(1) by simp
  moreover have "(r0 * n + a) div n = r"
    using assms(2,3) by (intro div_nat_eqI) (simp_all add: mult.commute)
  ultimately show ?thesis by simp
qed

lemma pack_JK_loops_entry:
  assumes shp: "has_shape out0 (prod3 Ls * n) (prod3 Ls * n)"
    and inp: "has_shape inp n (n * prod3 Ls)"
    and row: "row \<in> set (cells Ls)" and col: "col \<in> set (cells Ls)"
    and a: "a < n" and b: "b < n"
  shows "has_shape (pack_JK_loops inp Ls n out0) (prod3 Ls * n) (prod3 Ls * n)
       \<and> pack_JK_loops inp Ls n out0 ! (loc_cell Ls row * n + a) ! (loc_cell Ls col * n + b)
         = inp ! a ! (loc_cell Ls (cell_diff Ls col row) * n + b)"
proof -
  let ?N = "prod3 Ls * n"
  let ?i = "loc_cell Ls row * n + a"
  let ?j = "loc_cell Ls col * n + b"
  let ?c = "inp ! a ! (loc_cell Ls (cell_diff Ls col row) * n + b)"
  let ?W = "\<lambda>rc. loc_cell Ls (fst rc) * n \<le> ?i \<and> ?i < (loc_cell Ls (fst rc) + 1) * n
               \<and> loc_cell Ls (snd rc) * n \<le> ?j \<and> ?j < (loc_cell Ls (snd rc) + 1) * n"
  let ?v = "\<lambda>rc. slice_cols inp (loc_cell Ls (cell_diff Ls (snd rc) (fst rc)) * n)
                  ((loc_cell Ls (cell_diff Ls (snd rc) (fst rc)) + 1) * n)
                ! (?i - loc_cell Ls (fst rc) * n) ! (?j - loc_cell Ls (snd rc) * n)"
  let ?ks = "List.product (cells Ls) (cells Ls)"
  have i: "?i < ?N" using loc_cell_less [OF row] a by (rule block_index_less)
  have j: "?j < ?N" using loc_cell_less [OF col] b by (rule block_index_less)
  have "has_shape (fold (\<lambda>rc. pack_JK_body inp Ls n (fst rc) (snd rc)) ?ks out0) ?N ?N
      \<and> fold (\<lambda>rc. pack_JK_body inp Ls n (fst rc) (snd rc)) ?ks out0 ! ?i ! ?j
        = (if \<exists>rc \<in> set ?ks. ?W rc then ?c else out0 ! ?i ! ?j)"
  proof (rule fold_writes [where Inv = "\<lambda>M. has_shape M ?N ?N" and v = ?v and W = ?W
        and obs = "\<lambda>M. M ! ?i ! ?j"])
    fix rc :: "triple \<times> triple" and M :: "real matrix"
    assume "rc \<in> set ?ks" and M: "has_shape M ?N ?N"
    show "has_shape (pack_JK_body inp Ls n (fst rc) (snd rc) M) ?N ?N"
      using M by (simp add: pack_JK_body_def Let_def set_slice2_shape)
    have "?i < length M" "?j < length (M ! ?i)"
      using M i j by (simp_all add: has_shape_length has_shape_nth)
    then show "pack_JK_body inp Ls n (fst rc) (snd rc) M ! ?i ! ?j
        = (if ?W rc then ?v rc else M ! ?i ! ?j)"
      by (simp add: pack_JK_body_def Let_def set_slice2_nth)
  next
    fix rc :: "triple \<times> triple"
    assume rc: "rc \<in> set ?ks" and W: "?W rc"
    have m: "fst rc \<in> set (cells Ls)" "snd rc \<in> set (cells Ls)"
      using rc by (simp_all add: mem_Times_iff)
    have "loc_cell Ls (fst rc) = loc_cell Ls row"
      using a W by (intro block_index_unique [of a n]) simp_all
    then have r: "fst rc = row" using m row by (intro loc_cell_inj [of _ Ls])
    have "loc_cell Ls (snd rc) = loc_cell Ls col"
      using b W by (intro block_index_unique [of b n]) simp_all
    then have c: "snd rc = col" using m col by (intro loc_cell_inj [of _ Ls])
    have d: "loc_cell Ls (cell_diff Ls col row) < prod3 Ls"
      using row col by (intro loc_cell_less cell_diff_in_cells)
    have "loc_cell Ls (cell_diff Ls col row) * n + b < prod3 Ls * n"
      using d b by (rule block_index_less)
    then have "loc_cell Ls (cell_diff Ls col row) * n + b < length (inp ! a)"
      using inp a by (simp add: has_shape_nth mult.commute)
    then show "?v rc = ?c"
      unfolding r c using inp a b by (simp add: slice_cols_nth has_shape_length)
  next
    show "has_shape out0 ?N ?N" by (rule shp)
  qed
  moreover have "(row, col) \<in> set ?ks \<and> ?W (row, col)"
    using row col a b by simp
  ultimately have "has_shape (fold (\<lambda>rc. pack_JK_body inp Ls n (fst rc) (snd rc)) ?ks out0) ?N ?N
      \<and> fold (\<lambda>rc. pack_JK_body inp Ls n (fst rc) (snd rc)) ?ks out0 ! ?i ! ?j = ?c"
    by (simp only: if_P [OF bexI [of ?W "(row, col)" "set ?ks"]])
  then show ?thesis
    unfolding pack_JK_loops_fold .
qed


lemma block_end_le:
  fixes n :: nat
  assumes "r < R'" "R' * n \<le> R"
  shows "(r + 1) * n \<le> R"
proof -
  have "(r + 1) * n \<le> R' * n" using assms(1) by (intro mult_le_mono1) simp
  then show ?thesis using assms(2) by simp
qed

lemma fold_preserves:
  assumes "\<And>k s. Inv s \<Longrightarrow> Inv (f k s)" "Inv s0"
  shows "Inv (fold f ks s0)"
  using assms(2) by (induction ks arbitrary: s0) (simp_all add: assms(1))

lemma pack_JK_loops_shape:
  assumes "has_shape out0 R C"
  shows "has_shape (pack_JK_loops inp Ls n out0) R C"
  unfolding pack_JK_loops_fold using _ assms
  by (rule fold_preserves) (simp add: pack_JK_body_def Let_def set_slice2_shape)

lemma block_shape:
  assumes "has_shape M R C" "r < R'" "c < C'" "R' * n \<le> R" "C' * n \<le> C"
  shows "has_shape (block M n r c) n n"
proof (rule has_shapeI)
  have r: "(r + 1) * n \<le> R" using assms(2,4) by (rule block_end_le)
  have c: "(c + 1) * n \<le> C" using assms(3,5) by (rule block_end_le)
  show "length (block M n r c) = n"
    using r assms(1) by (simp add: block_def slice2_length has_shape_length)
  fix a assume a: "a < n"
  have "r * n + a < R" using r a by simp
  then have "length (M ! (r * n + a)) = C" using assms(1) by (simp add: has_shape_nth)
  then show "length (block M n r c ! a) = n"
    using r c a assms(1) by (simp add: block_def slice2_row_length has_shape_length)
qed

lemma block_nth:
  assumes "has_shape M R C" "r < R'" "c < C'" "R' * n \<le> R" "C' * n \<le> C" "a < n" "b < n"
  shows "block M n r c ! a ! b = M ! (r * n + a) ! (c * n + b)"
proof -
  have r: "(r + 1) * n \<le> R" using assms(2,4) by (rule block_end_le)
  have c: "(c + 1) * n \<le> C" using assms(3,5) by (rule block_end_le)
  have "r * n + a < R" using r assms(6) by simp
  then have "length (M ! (r * n + a)) = C" using assms(1) by (simp add: has_shape_nth)
  then show ?thesis
    using r c assms(1,6,7) by (simp add: block_def slice2_nth has_shape_length)
qed

lemma matrix_eqI:
  assumes "has_shape A r c" "has_shape B r c"
    and "\<And>i j. i < r \<Longrightarrow> j < c \<Longrightarrow> A ! i ! j = B ! i ! j"
  shows "A = B"
proof (rule nth_equalityI)
  show "length A = length B" using assms(1,2) by (simp add: has_shape_length)
  fix i assume "i < length A"
  then have i: "i < r" using assms(1) by (simp add: has_shape_length)
  show "A ! i = B ! i"
  proof (rule nth_equalityI)
    show "length (A ! i) = length (B ! i)" using assms(1,2) i by (simp add: has_shape_nth)
    fix j assume "j < length (A ! i)"
    then have "j < c" using assms(1) i by (simp add: has_shape_nth)
    then show "A ! i ! j = B ! i ! j" using i by (rule assms(3) [rotated])
  qed
qed

lemma loc_cell_onto:
  assumes "r < prod3 Ls"
  shows "\<exists>row \<in> set (cells Ls). loc_cell Ls row = r"
proof -
  have inj: "inj_on (loc_cell Ls) (set (cells Ls))"
    by (rule inj_onI) (rule loc_cell_inj)
  have "card (loc_cell Ls ` set (cells Ls)) = card (set (cells Ls))"
    using inj by (rule card_image)
  also have "\<dots> = prod3 Ls"
    using distinct_cells [of Ls] by (cases Ls) (simp add: distinct_card length_cells prod3_def)
  finally have c: "card (loc_cell Ls ` set (cells Ls)) = card {0..<prod3 Ls}" by simp
  have "loc_cell Ls ` set (cells Ls) \<subseteq> {0..<prod3 Ls}"
    using loc_cell_less by fastforce
  then have "loc_cell Ls ` set (cells Ls) = {0..<prod3 Ls}"
    using c by (intro card_subset_eq) simp_all
  then have "r \<in> loc_cell Ls ` set (cells Ls)" using assms by simp
  then show ?thesis by blast
qed

lemma cell_diff_zero:
  assumes "d \<in> set (cells Ls)"
  shows "(0, 0, 0) \<in> set (cells Ls) \<and> loc_cell Ls (0, 0, 0) = 0 \<and> cell_diff Ls d (0, 0, 0) = d"
proof -
  obtain L0 L1 L2 where L: "Ls = (L0, L1, L2)" by (metis prod_cases3)
  obtain a b c where t: "d = (a, b, c)" by (metis prod_cases3)
  have "a < L0" "b < L1" "c < L2" using assms unfolding L t set_cells by auto
  then show ?thesis unfolding L t
    by (simp add: set_cells cell_diff_def py_mod_def loc_cell_def)
qed

lemma pack_JK_loops_block:
  assumes shp: "has_shape out0 (prod3 Ls * n) (prod3 Ls * n)"
    and inp: "has_shape inp n (n * prod3 Ls)"
    and row: "row \<in> set (cells Ls)" and col: "col \<in> set (cells Ls)"
  shows "block (pack_JK_loops inp Ls n out0) n (loc_cell Ls row) (loc_cell Ls col)
       = block inp n 0 (loc_cell Ls (cell_diff Ls col row))"
proof (rule matrix_eqI [where r = n and c = n])
  let ?out = "pack_JK_loops inp Ls n out0"
  have so: "has_shape ?out (prod3 Ls * n) (prod3 Ls * n)"
    using shp by (rule pack_JK_loops_shape)
  show "has_shape (block ?out n (loc_cell Ls row) (loc_cell Ls col)) n n"
    using so loc_cell_less [OF row] loc_cell_less [OF col] by (rule block_shape) simp_all
  have d: "loc_cell Ls (cell_diff Ls col row) < prod3 Ls"
    using row col by (intro loc_cell_less cell_diff_in_cells)
  have z: "(0::nat) < 1" by simp
  show "has_shape (block inp n 0 (loc_cell Ls (cell_diff Ls col row))) n n"
    using inp z d by (rule block_shape) (simp_all add: mult.commute)
  fix a b assume a: "a < n" and b: "b < n"
  have "block ?out n (loc_cell Ls row) (loc_cell Ls col) ! a ! b
      = ?out ! (loc_cell Ls row * n + a) ! (loc_cell Ls col * n + b)"
    using so loc_cell_less [OF row] loc_cell_less [OF col] _ _ a b by (rule block_nth) simp_all
  also have "\<dots> = inp ! a ! (loc_cell Ls (cell_diff Ls col row) * n + b)"
    using pack_JK_loops_entry [OF shp inp row col a b] by simp
  also have "\<dots> = block inp n 0 (loc_cell Ls (cell_diff Ls col row)) ! a ! b"
    using block_nth [OF inp z d _ _ a b] by (simp add: mult.commute)
  finally show "block ?out n (loc_cell Ls row) (loc_cell Ls col) ! a ! b
      = block inp n 0 (loc_cell Ls (cell_diff Ls col row)) ! a ! b" .
qed


lemma pack_JK_InrD:
  assumes "pack_JK input_mat Ls nao_prim outp = Inr out"
  shows "\<exists>out0. has_shape out0 (prod3 Ls * nao_prim) (prod3 Ls * nao_prim)
               \<and> out = pack_JK_loops input_mat Ls nao_prim out0"
proof (cases outp)
  case None
  then have "out = pack_JK_loops input_mat Ls nao_prim (zeros (prod3 Ls * nao_prim) (prod3 Ls * nao_prim))"
    using assms by (simp add: pack_JK_def pack_JK_output_def Let_def split: if_splits)
  then show ?thesis using has_shape_zeros by blast
next
  case (Some o1)
  then have "has_shape o1 (prod3 Ls * nao_prim) (prod3 Ls * nao_prim)
           \<and> out = pack_JK_loops input_mat Ls nao_prim o1"
    using assms by (simp add: pack_JK_def pack_JK_output_def Let_def split: if_splits)
  then show ?thesis by blast
qed

text \<open>
  C2.  For every \<open>Ls\<close>, every \<open>nao_prim\<close> (in particular every \<open>nao_prim\<close> of at least 1)
  and every real input matrix of shape \<open>(nao_prim, nao_prim * prod(Ls))\<close>, \<open>pack_JK\<close>
  returns a matrix; whatever matrix it returns (with or without a caller-supplied
  \<open>output\<close>) has shape \<open>(prod(Ls) * nao_prim, prod(Ls) * nao_prim)\<close>, its block at the
  cells \<open>(row, col)\<close> is the input block at the component-wise difference
  \<open>(col - row) mod Ls\<close>, hence equals its own block \<open>(0, (col - row) mod Ls)\<close>, and the
  cells reach every linear block index below \<open>prod(Ls)\<close>.
\<close>

theorem pack_JK_block_circulant:
  assumes "has_shape input_mat nao_prim (nao_prim * prod3 Ls)"
  shows "(\<exists>out. pack_JK input_mat Ls nao_prim None = Inr out)
       \<and> (\<forall>output out. pack_JK input_mat Ls nao_prim output = Inr out \<longrightarrow>
             has_shape out (prod3 Ls * nao_prim) (prod3 Ls * nao_prim)
           \<and> (\<forall>row \<in> set (cells Ls). \<forall>col \<in> set (cells Ls).
                 block out nao_prim (loc_cell Ls row) (loc_cell Ls col)
                   = block input_mat nao_prim 0 (loc_cell Ls (cell_diff Ls col row))
               \<and> block out nao_prim (loc_cell Ls row) (loc_cell Ls col)
                   = block out nao_prim 0 (loc_cell Ls (cell_diff Ls col row)))
           \<and> (\<forall>r < prod3 Ls. \<exists>row \<in> set (cells Ls). loc_cell Ls row = r))"
proof -
  have ex: "\<exists>out. pack_JK input_mat Ls nao_prim None = Inr out"
    using assms by (simp add: pack_JK_def pack_JK_output_def Let_def)
  have main: "has_shape out (prod3 Ls * nao_prim) (prod3 Ls * nao_prim)
           \<and> (\<forall>row \<in> set (cells Ls). \<forall>col \<in> set (cells Ls).
                 block out nao_prim (loc_cell Ls row) (loc_cell Ls col)
                   = block input_mat nao_prim 0 (loc_cell Ls (cell_diff Ls col row))
               \<and> block out nao_prim (loc_cell Ls row) (loc_cell Ls col)
                   = block out nao_prim 0 (loc_cell Ls (cell_diff Ls col row)))
           \<and> (\<forall>r < prod3 Ls. \<exists>row \<in> set (cells Ls). loc_cell Ls row = r)"
    if run: "pack_JK input_mat Ls nao_prim outp = Inr out" for outp out
  proof (intro conjI ballI)
    obtain out0 where out0: "has_shape out0 (prod3 Ls * nao_prim) (prod3 Ls * nao_prim)"
      and out: "out = pack_JK_loops input_mat Ls nao_prim out0"
      using pack_JK_InrD [OF run] by blast
    show "has_shape out (prod3 Ls * nao_prim) (prod3 Ls * nao_prim)"
      unfolding out using out0 by (rule pack_JK_loops_shape)
    show "\<forall>r < prod3 Ls. \<exists>row \<in> set (cells Ls). loc_cell Ls row = r"
      using loc_cell_onto by blast
    fix row col assume row: "row \<in> set (cells Ls)" and col: "col \<in> set (cells Ls)"
    let ?d = "cell_diff Ls col row"
    have d: "?d \<in> set (cells Ls)" using row col by (rule cell_diff_in_cells)
    note z = cell_diff_zero [OF d]
    show e1: "block out nao_prim (loc_cell Ls row) (loc_cell Ls col)
        = block input_mat nao_prim 0 (loc_cell Ls ?d)"
      unfolding out using out0 assms row col by (rule pack_JK_loops_block)
    have "block out nao_prim (loc_cell Ls (0, 0, 0)) (loc_cell Ls ?d)
        = block input_mat nao_prim 0 (loc_cell Ls (cell_diff Ls ?d (0, 0, 0)))"
      unfolding out using out0 assms _ d by (rule pack_JK_loops_block) (simp add: z)
    then have "block out nao_prim 0 (loc_cell Ls ?d) = block input_mat nao_prim 0 (loc_cell Ls ?d)"
      by (simp add: z)
    then show "block out nao_prim (loc_cell Ls row) (loc_cell Ls col)
        = block out nao_prim 0 (loc_cell Ls ?d)"
      using e1 by simp
  qed
  show ?thesis
    by (rule conjI, rule ex, intro allI impI) (rule main)
qed

theorem pack_JK_block_circulant_witness:
  "pack_JK [[1, 2, 3, 4, 5, 6, 7, 8], [11, 12, 13, 14, 15, 16, 17, 18]] (1, 2, 2) 2 None
     = Inr [[1, 2, 3, 4, 5, 6, 7, 8], [11, 12, 13, 14, 15, 16, 17, 18],
            [3, 4, 1, 2, 7, 8, 5, 6], [13, 14, 11, 12, 17, 18, 15, 16],
            [5, 6, 7, 8, 1, 2, 3, 4], [15, 16, 17, 18, 11, 12, 13, 14],
            [7, 8, 5, 6, 3, 4, 1, 2], [17, 18, 15, 16, 13, 14, 11, 12]]
   \<and> block [[1, 2, 3, 4, 5, 6, 7, 8], [11, 12, 13, 14, 15, 16, 17, 18],
            [3, 4, 1, 2, 7, 8, 5, 6], [13, 14, 11, 12, 17, 18, 15, 16],
            [5, 6, 7, 8, 1, 2, 3, 4], [15, 16, 17, 18, 11, 12, 13, 14],
            [7, 8, 5, 6, 3, 4, 1, 2], [17, 18, 15, 16, 13, 14, 11, 12]]
        2 (loc_cell (1, 2, 2) (0, 0, 1)) (loc_cell (1, 2, 2) (0, 1, 0))
     = block [[1, 2, 3, 4, 5, 6, 7, 8], [11, 12, 13, 14, 15, 16, 17, 18 :: real]] 2 0
         (loc_cell (1, 2, 2) (cell_diff (1, 2, 2) (0, 1, 0) (0, 0, 1)))
   \<and> block [[1, 2, 3, 4, 5, 6, 7, 8], [11, 12, 13, 14, 15, 16, 17, 18 :: real]] 2 0
         (loc_cell (1, 2, 2) (cell_diff (1, 2, 2) (0, 1, 0) (0, 0, 1)))
     = [[7, 8], [17, 18]]"
proof -
  let ?inp = "[[1, 2, 3, 4, 5, 6, 7, 8], [11, 12, 13, 14, 15, 16, 17, 18]] :: real matrix"
  let ?out = "[[1, 2, 3, 4, 5, 6, 7, 8], [11, 12, 13, 14, 15, 16, 17, 18],
            [3, 4, 1, 2, 7, 8, 5, 6], [13, 14, 11, 12, 17, 18, 15, 16],
            [5, 6, 7, 8, 1, 2, 3, 4], [15, 16, 17, 18, 11, 12, 13, 14],
            [7, 8, 5, 6, 3, 4, 1, 2], [17, 18, 15, 16, 13, 14, 11, 12]] :: real matrix"
  have h2: "has_shape ?inp 2 (2 * prod3 (1, 2, 2))" by (simp add: has_shape_def prod3_def)
  have r: "(0, 0, 1) \<in> set (cells (1, 2, 2))" "(0, 1, 0) \<in> set (cells (1, 2, 2))"
    by (simp_all add: set_cells)
  have e: "pack_JK ?inp (1, 2, 2) 2 None = Inr ?out"
    by code_simp
  have b: "block ?out 2 (loc_cell (1, 2, 2) (0, 0, 1)) (loc_cell (1, 2, 2) (0, 1, 0))
      = block ?inp 2 0 (loc_cell (1, 2, 2) (cell_diff (1, 2, 2) (0, 1, 0) (0, 0, 1)))"
    using pack_JK_block_circulant [OF h2, THEN conjunct2, rule_format, OF e, THEN conjunct2,
      THEN conjunct1, rule_format, OF r, THEN conjunct1] .
  have v: "block ?inp 2 0 (loc_cell (1, 2, 2) (cell_diff (1, 2, 2) (0, 1, 0) (0, 0, 1)))
      = [[7, 8], [17, 18]]"
    by code_simp
  show ?thesis using e b v by (intro conjI)
qed

section \<open>Properties of the symmetrisation\<close>

lemma mat_add_shape:
  assumes "has_shape A n m" "has_shape B n m"
  shows "has_shape (mat_add A B) n m"
  using assms by (intro has_shapeI) (simp_all add: mat_add_def has_shape_length has_shape_nth)

lemma mat_add_nth:
  assumes "has_shape A n m" "has_shape B n m" "a < n" "b < m"
  shows "mat_add A B ! a ! b = A ! a ! b + B ! a ! b"
  using assms by (simp add: mat_add_def has_shape_length has_shape_nth)

lemma mat_div_shape:
  assumes "has_shape A n m"
  shows "has_shape (mat_div A k) n m"
  using assms by (intro has_shapeI) (simp_all add: mat_div_def has_shape_length has_shape_nth)

lemma mat_div_nth:
  assumes "has_shape A n m" "a < n" "b < m"
  shows "mat_div A k ! a ! b = A ! a ! b / real k"
  using assms by (simp add: mat_div_def has_shape_length has_shape_nth)

lemma fold_mat_add:
  assumes "\<And>r. r \<in> set rs \<Longrightarrow> has_shape (B r) n m" "has_shape buf0 n m"
  shows "has_shape (fold (\<lambda>r buf. mat_add buf (B r)) rs buf0) n m
       \<and> (\<forall>a<n. \<forall>b<m. fold (\<lambda>r buf. mat_add buf (B r)) rs buf0 ! a ! b
            = buf0 ! a ! b + (\<Sum>r\<leftarrow>rs. B r ! a ! b))"
  using assms
proof (induction rs arbitrary: buf0)
  case Nil
  then show ?case by simp
next
  case (Cons r rs)
  have Br: "has_shape (B r) n m" using Cons.prems(1) by simp
  have s1: "has_shape (mat_add buf0 (B r)) n m"
    using Cons.prems(2) Br by (rule mat_add_shape)
  have ih: "has_shape (fold (\<lambda>r buf. mat_add buf (B r)) rs (mat_add buf0 (B r))) n m
       \<and> (\<forall>a<n. \<forall>b<m. fold (\<lambda>r buf. mat_add buf (B r)) rs (mat_add buf0 (B r)) ! a ! b
            = mat_add buf0 (B r) ! a ! b + (\<Sum>r\<leftarrow>rs. B r ! a ! b))"
    using Cons.prems(1) s1 by (intro Cons.IH) simp_all
  show ?case
  proof (intro conjI allI impI)
    show "has_shape (fold (\<lambda>r buf. mat_add buf (B r)) (r # rs) buf0) n m"
      using ih by simp
    fix a b assume ab: "a < n" "b < m"
    have "fold (\<lambda>r buf. mat_add buf (B r)) (r # rs) buf0 ! a ! b
        = mat_add buf0 (B r) ! a ! b + (\<Sum>r\<leftarrow>rs. B r ! a ! b)"
      using ih ab by simp
    also have "mat_add buf0 (B r) ! a ! b = buf0 ! a ! b + B r ! a ! b"
      using Cons.prems(2) Br ab by (rule mat_add_nth)
    finally show "fold (\<lambda>r buf. mat_add buf (B r)) (r # rs) buf0 ! a ! b
        = buf0 ! a ! b + (\<Sum>r\<leftarrow>r # rs. B r ! a ! b)"
      by simp
  qed
qed

lemma cell_add_in_cells:
  assumes "row \<in> set (cells Ls)"
  shows "cell_add Ls shift row \<in> set (cells Ls)"
proof -
  obtain L0 L1 L2 where L: "Ls = (L0, L1, L2)" by (metis prod_cases3)
  obtain a b c where t: "row = (a, b, c)" by (metis prod_cases3)
  obtain a' b' c' where t': "shift = (a', b', c')" by (metis prod_cases3)
  have "0 < L0" "0 < L1" "0 < L2" using assms unfolding L t set_cells by auto
  then show ?thesis unfolding L t t' by (simp add: set_cells cell_add_def)
qed

lemma py_mod_diff_add:
  assumes "a < L" "b < L"
  shows "(py_mod (int b - int a) L + a) mod L = b"
proof -
  have L: "0 < int L" using assms by simp
  have "int ((py_mod (int b - int a) L + a) mod L)
      = ((int b - int a) mod int L + int a) mod int L"
    using L by (simp add: py_mod_def zmod_int)
  also have "\<dots> = (int b - int a + int a) mod int L"
    by (simp add: mod_add_left_eq)
  also have "\<dots> = int b" using assms by simp
  finally show ?thesis by simp
qed

lemma py_mod_add_diff:
  assumes "a < L" "s < L"
  shows "py_mod (int ((s + a) mod L) - int a) L = s"
proof -
  have "(int ((s + a) mod L) - int a) mod int L = ((int s + int a) mod int L - int a) mod int L"
    by (simp add: zmod_int)
  also have "\<dots> = (int s + int a - int a) mod int L"
    by (simp add: mod_diff_left_eq)
  also have "\<dots> = int s" using assms by simp
  finally show ?thesis by (simp add: py_mod_def)
qed

lemma cell_add_diff:
  assumes "row \<in> set (cells Ls)" "col \<in> set (cells Ls)"
  shows "cell_add Ls (cell_diff Ls col row) row = col"
proof -
  obtain L0 L1 L2 where L: "Ls = (L0, L1, L2)" by (metis prod_cases3)
  obtain a b c where t: "row = (a, b, c)" by (metis prod_cases3)
  obtain a' b' c' where t': "col = (a', b', c')" by (metis prod_cases3)
  have "a < L0" "b < L1" "c < L2" "a' < L0" "b' < L1" "c' < L2"
    using assms unfolding L t t' set_cells by auto
  then show ?thesis unfolding L t t'
    by (simp add: cell_add_def cell_diff_def py_mod_diff_add)
qed

lemma cell_diff_add:
  assumes "row \<in> set (cells Ls)" "shift \<in> set (cells Ls)"
  shows "cell_diff Ls (cell_add Ls shift row) row = shift"
proof -
  obtain L0 L1 L2 where L: "Ls = (L0, L1, L2)" by (metis prod_cases3)
  obtain a b c where t: "row = (a, b, c)" by (metis prod_cases3)
  obtain a' b' c' where t': "shift = (a', b', c')" by (metis prod_cases3)
  have "a < L0" "b < L1" "c < L2" "a' < L0" "b' < L1" "c' < L2"
    using assms unfolding L t t' set_cells by auto
  then show ?thesis unfolding L t t'
    by (simp add: cell_add_def cell_diff_def py_mod_add_diff)
qed


lemma symmetrize_dm_sum_block:
  "symmetrize_dm_sum dm Ls n s r buf
   = mat_add buf (block dm n (loc_cell Ls r) (loc_cell Ls (cell_add Ls s r)))"
  by (simp add: symmetrize_dm_sum_def block_def Let_def)

lemma symmetrize_dm_buf_fold:
  "symmetrize_dm_buf dm Ls ncell n s
   = mat_div (fold (\<lambda>r buf. mat_add buf (block dm n (loc_cell Ls r) (loc_cell Ls (cell_add Ls s r))))
       (cells Ls) (zeros n n)) ncell"
proof -
  obtain L0 L1 L2 where L: "Ls = (L0, L1, L2)" by (metis prod_cases3)
  have f: "fold (\<lambda>i_row. fold (\<lambda>j_row. fold (\<lambda>k_row.
            symmetrize_dm_sum dm Ls n s (i_row, j_row, k_row)) [0..<L2]) [0..<L1]) [0..<L0]
      = fold (symmetrize_dm_sum dm Ls n s) (cells Ls)"
    unfolding L by (rule fold_cells)
  have g: "symmetrize_dm_sum dm Ls n s
      = (\<lambda>r buf. mat_add buf (block dm n (loc_cell Ls r) (loc_cell Ls (cell_add Ls s r))))"
    by (simp add: fun_eq_iff symmetrize_dm_sum_block)
  have "symmetrize_dm_buf dm Ls ncell n s
      = mat_div (fold (\<lambda>i_row. fold (\<lambda>j_row. fold (\<lambda>k_row.
            symmetrize_dm_sum dm Ls n s (i_row, j_row, k_row)) [0..<L2]) [0..<L1]) [0..<L0]
          (zeros n n)) ncell"
    by (simp add: symmetrize_dm_buf_def L Let_def)
  also have "\<dots> = mat_div (fold (symmetrize_dm_sum dm Ls n s) (cells Ls) (zeros n n)) ncell"
    by (simp only: f)
  finally show ?thesis by (simp only: g)
qed

lemma symmetrize_dm_buf_nth:
  assumes dm: "has_shape dm nao nao" and sz: "prod3 Ls * n \<le> nao"
  shows "has_shape (symmetrize_dm_buf dm Ls ncell n s) n n
       \<and> (\<forall>a<n. \<forall>b<n. symmetrize_dm_buf dm Ls ncell n s ! a ! b
            = (\<Sum>r\<leftarrow>cells Ls. dm ! (loc_cell Ls r * n + a) ! (loc_cell Ls (cell_add Ls s r) * n + b))
              / real ncell)"
proof -
  let ?B = "\<lambda>r. block dm n (loc_cell Ls r) (loc_cell Ls (cell_add Ls s r))"
  let ?F = "fold (\<lambda>r buf. mat_add buf (?B r)) (cells Ls) (zeros n n)"
  have B: "has_shape (?B r) n n" if "r \<in> set (cells Ls)" for r
    using dm loc_cell_less [OF that] loc_cell_less [OF cell_add_in_cells [OF that]] sz sz
    by (rule block_shape)
  have F: "has_shape ?F n n
       \<and> (\<forall>a<n. \<forall>b<n. ?F ! a ! b = zeros n n ! a ! b + (\<Sum>r\<leftarrow>cells Ls. ?B r ! a ! b))"
    using B has_shape_zeros by (rule fold_mat_add)
  have e: "(\<Sum>r\<leftarrow>cells Ls. ?B r ! a ! b)
      = (\<Sum>r\<leftarrow>cells Ls. dm ! (loc_cell Ls r * n + a) ! (loc_cell Ls (cell_add Ls s r) * n + b))"
    if "a < n" "b < n" for a b
  proof (rule arg_cong [where f = sum_list], rule map_cong [OF refl])
    fix r assume r: "r \<in> set (cells Ls)"
    show "?B r ! a ! b = dm ! (loc_cell Ls r * n + a) ! (loc_cell Ls (cell_add Ls s r) * n + b)"
      using dm loc_cell_less [OF r] loc_cell_less [OF cell_add_in_cells [OF r]] sz sz that
      by (rule block_nth)
  qed
  show ?thesis
  proof (intro conjI allI impI)
    show "has_shape (symmetrize_dm_buf dm Ls ncell n s) n n"
      unfolding symmetrize_dm_buf_fold using F by (intro mat_div_shape) simp
    fix a b assume ab: "a < n" "b < n"
    have "symmetrize_dm_buf dm Ls ncell n s ! a ! b = ?F ! a ! b / real ncell"
      unfolding symmetrize_dm_buf_fold using F ab by (intro mat_div_nth) simp_all
    also have "?F ! a ! b = (\<Sum>r\<leftarrow>cells Ls. ?B r ! a ! b)"
      using F ab by (simp add: zeros_nth)
    finally show "symmetrize_dm_buf dm Ls ncell n s ! a ! b
        = (\<Sum>r\<leftarrow>cells Ls. dm ! (loc_cell Ls r * n + a) ! (loc_cell Ls (cell_add Ls s r) * n + b))
          / real ncell"
      using e [OF ab] by simp
  qed
qed

lemma symmetrize_dm_fold:
  "symmetrize_dm dm Ls
   = fold (\<lambda>sr. symmetrize_dm_set Ls (length dm div prod3 Ls) (fst sr)
              (symmetrize_dm_buf dm Ls (prod3 Ls) (length dm div prod3 Ls) (fst sr)) (snd sr))
       (List.product (cells Ls) (cells Ls)) (zeros (length dm) (length dm))"
proof -
  obtain L0 L1 L2 where L: "Ls = (L0, L1, L2)" by (metis prod_cases3)
  let ?n = "length dm div prod3 Ls"
  let ?buf = "symmetrize_dm_buf dm Ls (prod3 Ls) ?n"
  have shift: "symmetrize_dm_shift dm Ls (prod3 Ls) ?n s
      = fold (symmetrize_dm_set Ls ?n s (?buf s)) (cells Ls)" for s
  proof -
    have "fold (\<lambda>i_row. fold (\<lambda>j_row. fold (\<lambda>k_row.
              symmetrize_dm_set Ls ?n s (?buf s) (i_row, j_row, k_row)) [0..<L2]) [0..<L1]) [0..<L0]
        = fold (symmetrize_dm_set Ls ?n s (?buf s)) (cells Ls)"
      unfolding L by (rule fold_cells)
    then show ?thesis
      by (simp add: symmetrize_dm_shift_def L Let_def fun_eq_iff)
  qed
  have f1: "fold (\<lambda>i. fold (\<lambda>j. fold (\<lambda>k.
            symmetrize_dm_shift dm Ls (prod3 Ls) ?n (i, j, k)) [0..<L2]) [0..<L1]) [0..<L0]
      = fold (symmetrize_dm_shift dm Ls (prod3 Ls) ?n) (cells Ls)"
    unfolding L by (rule fold_cells)
  have f2: "symmetrize_dm_shift dm Ls (prod3 Ls) ?n
      = (\<lambda>s. fold (symmetrize_dm_set Ls ?n s (?buf s)) (cells Ls))"
    by (rule ext) (rule shift)
  have f3: "fold (\<lambda>s. fold (symmetrize_dm_set Ls ?n s (?buf s)) (cells Ls)) (cells Ls)
      = fold (\<lambda>(s, r). symmetrize_dm_set Ls ?n s (?buf s) r)
        (List.product (cells Ls) (cells Ls))"
    by (rule fold_product)
  have "fold (\<lambda>i. fold (\<lambda>j. fold (\<lambda>k.
            symmetrize_dm_shift dm Ls (prod3 Ls) ?n (i, j, k)) [0..<L2]) [0..<L1]) [0..<L0]
      = fold (\<lambda>sr. symmetrize_dm_set Ls ?n (fst sr) (?buf (fst sr)) (snd sr))
        (List.product (cells Ls) (cells Ls))"
    unfolding f1 unfolding f2 unfolding f3 by (simp add: case_prod_unfold)
  then show ?thesis
    by (simp add: symmetrize_dm_def L Let_def)
qed


lemma symmetrize_dm_set_shape:
  "has_shape M R C \<Longrightarrow> has_shape (symmetrize_dm_set Ls n s buf r M) R C"
  by (simp add: symmetrize_dm_set_def Let_def set_slice2_shape)

lemma symmetrize_dm_shape:
  "has_shape (symmetrize_dm dm Ls) (length dm) (length dm)"
  unfolding symmetrize_dm_fold
  by (rule fold_preserves [where Inv = "\<lambda>M. has_shape M (length dm) (length dm)"])
    (simp_all add: symmetrize_dm_set_shape has_shape_zeros)

lemma symmetrize_dm_entry:
  assumes dm: "has_shape dm nao nao"
    and row: "row \<in> set (cells Ls)" and col: "col \<in> set (cells Ls)"
    and a: "a < nao div prod3 Ls" and b: "b < nao div prod3 Ls"
  shows "symmetrize_dm dm Ls ! (loc_cell Ls row * (nao div prod3 Ls) + a)
           ! (loc_cell Ls col * (nao div prod3 Ls) + b)
       = block_average dm Ls (nao div prod3 Ls) (cell_diff Ls col row) a b"
proof -
  let ?n = "nao div prod3 Ls"
  let ?i = "loc_cell Ls row * ?n + a"
  let ?j = "loc_cell Ls col * ?n + b"
  let ?c = "block_average dm Ls ?n (cell_diff Ls col row) a b"
  let ?buf = "symmetrize_dm_buf dm Ls (prod3 Ls) ?n"
  let ?W = "\<lambda>sr. loc_cell Ls (snd sr) * ?n \<le> ?i \<and> ?i < (loc_cell Ls (snd sr) + 1) * ?n
               \<and> loc_cell Ls (cell_add Ls (fst sr) (snd sr)) * ?n \<le> ?j
               \<and> ?j < (loc_cell Ls (cell_add Ls (fst sr) (snd sr)) + 1) * ?n"
  let ?v = "\<lambda>sr. ?buf (fst sr) ! (?i - loc_cell Ls (snd sr) * ?n)
                ! (?j - loc_cell Ls (cell_add Ls (fst sr) (snd sr)) * ?n)"
  let ?ks = "List.product (cells Ls) (cells Ls)"
  let ?f = "\<lambda>sr. symmetrize_dm_set Ls ?n (fst sr) (?buf (fst sr)) (snd sr)"
  have len: "length dm = nao" using dm by (rule has_shape_length)
  have sz: "prod3 Ls * ?n \<le> nao" by simp
  have i: "?i < nao"
    using block_index_less [OF loc_cell_less [OF row] a] sz by (rule less_le_trans)
  have j: "?j < nao"
    using block_index_less [OF loc_cell_less [OF col] b] sz by (rule less_le_trans)
  have "has_shape (fold ?f ?ks (zeros nao nao)) nao nao
      \<and> fold ?f ?ks (zeros nao nao) ! ?i ! ?j
        = (if \<exists>sr \<in> set ?ks. ?W sr then ?c else zeros nao nao ! ?i ! ?j)"
  proof (rule fold_writes [where Inv = "\<lambda>M. has_shape M nao nao" and v = ?v and W = ?W
        and obs = "\<lambda>M. M ! ?i ! ?j"])
    fix sr :: "triple \<times> triple" and M :: "real matrix"
    assume "sr \<in> set ?ks" and M: "has_shape M nao nao"
    show "has_shape (?f sr M) nao nao"
      using M by (rule symmetrize_dm_set_shape)
    have "?i < length M" "?j < length (M ! ?i)"
      using M i j by (simp_all add: has_shape_length has_shape_nth)
    then show "?f sr M ! ?i ! ?j = (if ?W sr then ?v sr else M ! ?i ! ?j)"
      by (simp add: symmetrize_dm_set_def Let_def set_slice2_nth)
  next
    fix sr :: "triple \<times> triple"
    assume sr: "sr \<in> set ?ks" and W: "?W sr"
    have m: "fst sr \<in> set (cells Ls)" "snd sr \<in> set (cells Ls)"
      using sr by (simp_all add: mem_Times_iff)
    have "loc_cell Ls (snd sr) = loc_cell Ls row"
      using a W by (intro block_index_unique [of a ?n]) simp_all
    then have r: "snd sr = row" using m row by (intro loc_cell_inj [of _ Ls])
    have "loc_cell Ls (cell_add Ls (fst sr) row) = loc_cell Ls col"
      using b W unfolding r by (intro block_index_unique [of b ?n]) simp_all
    then have "cell_add Ls (fst sr) row = col"
      using col cell_add_in_cells [OF row] by (intro loc_cell_inj [of _ Ls])
    then have "cell_diff Ls col row = fst sr"
      using cell_diff_add [OF row m(1)] by simp
    then have s: "fst sr = cell_diff Ls col row" by simp
    have cl: "cell_add Ls (cell_diff Ls col row) row = col"
      using row col by (rule cell_add_diff)
    have "?v sr = ?buf (cell_diff Ls col row) ! a ! b"
      unfolding r s cl by simp
    also have "\<dots> = ?c"
      using symmetrize_dm_buf_nth [OF dm sz, of "prod3 Ls" "cell_diff Ls col row"] a b
      by (simp add: block_average_def)
    finally show "?v sr = ?c" .
  next
    show "has_shape (zeros nao nao) nao nao" by (rule has_shape_zeros)
  qed
  moreover have "(cell_diff Ls col row, row) \<in> set ?ks \<and> ?W (cell_diff Ls col row, row)"
    using row col a b cell_diff_in_cells [OF row col] cell_add_diff [OF row col] by simp
  ultimately have "fold ?f ?ks (zeros nao nao) ! ?i ! ?j = ?c"
    by (simp only: if_P [OF bexI [of ?W "(cell_diff Ls col row, row)" "set ?ks"]])
  then show ?thesis
    unfolding symmetrize_dm_fold len .
qed


lemma symmetrize_dm_block:
  assumes dm: "has_shape dm nao nao"
    and row: "row \<in> set (cells Ls)" and col: "col \<in> set (cells Ls)"
  shows "has_shape (block (symmetrize_dm dm Ls) (nao div prod3 Ls) (loc_cell Ls row) (loc_cell Ls col))
           (nao div prod3 Ls) (nao div prod3 Ls)
       \<and> (\<forall>a<nao div prod3 Ls. \<forall>b<nao div prod3 Ls.
            block (symmetrize_dm dm Ls) (nao div prod3 Ls) (loc_cell Ls row) (loc_cell Ls col) ! a ! b
            = block_average dm Ls (nao div prod3 Ls) (cell_diff Ls col row) a b)"
proof -
  let ?n = "nao div prod3 Ls"
  let ?S = "symmetrize_dm dm Ls"
  have len: "length dm = nao" using dm by (rule has_shape_length)
  have S: "has_shape ?S nao nao" using symmetrize_dm_shape [of dm Ls] by (simp add: len)
  have sz: "prod3 Ls * ?n \<le> nao" by simp
  note lr = loc_cell_less [OF row] and lc = loc_cell_less [OF col]
  have sh: "has_shape (block ?S ?n (loc_cell Ls row) (loc_cell Ls col)) ?n ?n"
    using S lr lc sz sz by (rule block_shape)
  have en: "block ?S ?n (loc_cell Ls row) (loc_cell Ls col) ! a ! b
      = block_average dm Ls ?n (cell_diff Ls col row) a b" if ab: "a < ?n" "b < ?n" for a b
  proof -
    have "block ?S ?n (loc_cell Ls row) (loc_cell Ls col) ! a ! b
        = ?S ! (loc_cell Ls row * ?n + a) ! (loc_cell Ls col * ?n + b)"
      using S lr lc sz sz ab by (rule block_nth)
    also have "\<dots> = block_average dm Ls ?n (cell_diff Ls col row) a b"
      using dm row col ab by (rule symmetrize_dm_entry)
    finally show ?thesis .
  qed
  show ?thesis using sh en by blast
qed

lemma symmetrize_dm_block_diff:
  assumes dm: "has_shape dm nao nao"
    and row: "row \<in> set (cells Ls)" and col: "col \<in> set (cells Ls)"
    and row': "row' \<in> set (cells Ls)" and col': "col' \<in> set (cells Ls)"
    and d: "cell_diff Ls col row = cell_diff Ls col' row'"
  shows "block (symmetrize_dm dm Ls) (nao div prod3 Ls) (loc_cell Ls row) (loc_cell Ls col)
       = block (symmetrize_dm dm Ls) (nao div prod3 Ls) (loc_cell Ls row') (loc_cell Ls col')"
proof (rule matrix_eqI [where r = "nao div prod3 Ls" and c = "nao div prod3 Ls"])
  note b1 = symmetrize_dm_block [OF dm row col] and b2 = symmetrize_dm_block [OF dm row' col']
  show "has_shape (block (symmetrize_dm dm Ls) (nao div prod3 Ls) (loc_cell Ls row) (loc_cell Ls col))
          (nao div prod3 Ls) (nao div prod3 Ls)"
    using b1 by (rule conjunct1)
  show "has_shape (block (symmetrize_dm dm Ls) (nao div prod3 Ls) (loc_cell Ls row') (loc_cell Ls col'))
          (nao div prod3 Ls) (nao div prod3 Ls)"
    using b2 by (rule conjunct1)
  fix a b assume "a < nao div prod3 Ls" "b < nao div prod3 Ls"
  then show "block (symmetrize_dm dm Ls) (nao div prod3 Ls) (loc_cell Ls row) (loc_cell Ls col) ! a ! b
      = block (symmetrize_dm dm Ls) (nao div prod3 Ls) (loc_cell Ls row') (loc_cell Ls col') ! a ! b"
    using b1 b2 d by simp
qed



lemma symmetrize_dm_is_circulant:
  assumes "has_shape dm nao nao"
  shows "block_circulant (symmetrize_dm dm Ls) Ls (nao div prod3 Ls)"
  unfolding block_circulant_def using symmetrize_dm_block_diff [OF assms] by blast


section \<open>Properties of the J/K driver\<close>

lemma get_jk_dm_kSym_InrD:
  assumes "get_jk_dm_kSym env mydf args = Inr r"
  shows "\<exists>d. unwrap_dm (arg_dm args) = Inr d \<and> arg_with_j args \<and> arg_with_k args
           \<and> mydf_jk_buffer mydf \<noteq> None
           \<and> \<not> kpts_differ (arg_kpt args) (arg_kpts_band args)
           \<and> get_jk_contract env mydf (symmetrize_dm d (mydf_Ls mydf)) = Inr r"
proof (cases "unwrap_dm (arg_dm args)")
  case (Inl e)
  then show ?thesis using assms by (simp add: get_jk_dm_kSym_def)
next
  case (Inr d)
  have w: "arg_with_j args \<and> arg_with_k args"
    using assms Inr by (auto simp: get_jk_dm_kSym_def split: if_splits)
  have b: "mydf_jk_buffer mydf \<noteq> None"
    using assms Inr w
    by (auto simp: get_jk_dm_kSym_def allocate_jk_buffer_datatype_def split: if_splits)
  have c: "get_jk_checked env mydf args d = Inr r"
    using assms Inr w b by (auto simp: get_jk_dm_kSym_def)
  have k: "\<not> kpts_differ (arg_kpt args) (arg_kpts_band args)"
    using c by (auto simp: get_jk_checked_def split: if_splits)
  have "get_jk_contract env mydf (symmetrize_dm d (mydf_Ls mydf)) = Inr r"
    using c k by (auto simp: get_jk_checked_def Let_def split: if_splits)
  then show ?thesis using Inr w b k by simp
qed

lemma get_jk_contract_InrD:
  assumes "get_jk_contract env mydf d = Inr (vj, vk)"
  shows "env_get_j_kSym env mydf d = Inr vj \<and> env_get_k_kSym env mydf d = Inr vk"
  using assms by (auto simp: get_jk_contract_def split: if_splits sum.splits)


text \<open>
  C3.  Whenever \<open>get_jk_dm_kSym\<close> returns, the two contractions have been given
  \<open>symmetrize_dm dm Ls\<close> in place of the (unwrapped) input density matrix.  For every
  square \<open>dm\<close> whose dimension is divisible by \<open>prod(Ls)\<close>, the result keeps the shape,
  the entries of its block at the cells \<open>(row, col)\<close> are \<open>1 / prod(Ls)\<close> times the sum
  over all block rows \<open>r\<close> of the input blocks at \<open>(r, r + (col - row) mod Ls)\<close>, and so the
  block depends only on the translation difference of its indices.
\<close>

theorem symmetrize_dm_average:
  assumes "has_shape dm nao nao" and "prod3 Ls dvd nao"
  shows "has_shape (symmetrize_dm dm Ls) nao nao
       \<and> (\<forall>row \<in> set (cells Ls). \<forall>col \<in> set (cells Ls).
            \<forall>a<nao div prod3 Ls. \<forall>b<nao div prod3 Ls.
              block (symmetrize_dm dm Ls) (nao div prod3 Ls) (loc_cell Ls row) (loc_cell Ls col) ! a ! b
              = block_average dm Ls (nao div prod3 Ls) (cell_diff Ls col row) a b)
       \<and> block_circulant (symmetrize_dm dm Ls) Ls (nao div prod3 Ls)
       \<and> (\<forall>env mydf args vj vk. get_jk_dm_kSym env mydf args = Inr (vj, vk) \<longrightarrow>
            (\<exists>d. unwrap_dm (arg_dm args) = Inr d
               \<and> env_get_j_kSym env mydf (symmetrize_dm d (mydf_Ls mydf)) = Inr vj
               \<and> env_get_k_kSym env mydf (symmetrize_dm d (mydf_Ls mydf)) = Inr vk))"
proof (intro conjI)
  have len: "length dm = nao" using assms(1) by (rule has_shape_length)
  show "has_shape (symmetrize_dm dm Ls) nao nao"
    using symmetrize_dm_shape [of dm Ls] by (simp add: len)
  show "\<forall>row \<in> set (cells Ls). \<forall>col \<in> set (cells Ls).
            \<forall>a<nao div prod3 Ls. \<forall>b<nao div prod3 Ls.
              block (symmetrize_dm dm Ls) (nao div prod3 Ls) (loc_cell Ls row) (loc_cell Ls col) ! a ! b
              = block_average dm Ls (nao div prod3 Ls) (cell_diff Ls col row) a b"
    using symmetrize_dm_block [OF assms(1)] by blast
  show "block_circulant (symmetrize_dm dm Ls) Ls (nao div prod3 Ls)"
    using assms(1) by (rule symmetrize_dm_is_circulant)
  show "\<forall>env mydf args vj vk. get_jk_dm_kSym env mydf args = Inr (vj, vk) \<longrightarrow>
            (\<exists>d. unwrap_dm (arg_dm args) = Inr d
               \<and> env_get_j_kSym env mydf (symmetrize_dm d (mydf_Ls mydf)) = Inr vj
               \<and> env_get_k_kSym env mydf (symmetrize_dm d (mydf_Ls mydf)) = Inr vk)"
  proof (intro allI impI)
    fix env mydf args vj vk
    assume "get_jk_dm_kSym env mydf args = Inr (vj, vk)"
    then obtain d where d: "unwrap_dm (arg_dm args) = Inr d"
      and c: "get_jk_contract env mydf (symmetrize_dm d (mydf_Ls mydf)) = Inr (vj, vk)"
      using get_jk_dm_kSym_InrD by blast
    show "\<exists>d. unwrap_dm (arg_dm args) = Inr d
               \<and> env_get_j_kSym env mydf (symmetrize_dm d (mydf_Ls mydf)) = Inr vj
               \<and> env_get_k_kSym env mydf (symmetrize_dm d (mydf_Ls mydf)) = Inr vk"
      using d get_jk_contract_InrD [OF c] by blast
  qed
qed




theorem symmetrize_dm_average_witness:
  "symmetrize_dm [[1, 2, 3, 4], [5, 6, 7, 8], [9, 10, 11, 12], [13, 14, 15, 16]] (1, 1, 2)
     = [[6, 7, 6, 7], [10, 11, 10, 11], [6, 7, 6, 7], [10, 11, 10, 11]]
   \<and> block (symmetrize_dm [[1, 2, 3, 4], [5, 6, 7, 8], [9, 10, 11, 12], [13, 14, 15, 16]] (1, 1, 2))
         (4 div prod3 (1, 1, 2)) (loc_cell (1, 1, 2) (0, 0, 1)) (loc_cell (1, 1, 2) (0, 0, 0)) ! 1 ! 0
     = block_average [[1, 2, 3, 4], [5, 6, 7, 8], [9, 10, 11, 12], [13, 14, 15, 16]] (1, 1, 2)
         (4 div prod3 (1, 1, 2)) (cell_diff (1, 1, 2) (0, 0, 0) (0, 0, 1)) 1 0
   \<and> block_average [[1, 2, 3, 4], [5, 6, 7, 8], [9, 10, 11, 12], [13, 14, 15, 16]] (1, 1, 2)
         (4 div prod3 (1, 1, 2)) (cell_diff (1, 1, 2) (0, 0, 0) (0, 0, 1)) 1 0 = (7 + 13) / 2
   \<and> get_jk_dm_kSym
         \<lparr>env_gamma_point = (\<lambda>k. sum_list (map abs k) < 1 / 10 ^ 9),
          env_get_j_kSym = (\<lambda>mydf d. Inr d), env_get_k_kSym = (\<lambda>mydf d. Inr (mat_div d 2))\<rparr>
         \<lparr>mydf_Ls = (1, 1, 2), mydf_jk_buffer = Some [], mydf_outcore = False,
          mydf_with_robust_fitting = False, mydf_nIP_Prim = 0, mydf_W = [], mydf_W0 = [],
      mydf_aoRg_Prim = [], mydf_nao = 4, mydf_ngrid = 8, mydf_vol = 1\<rparr>
         \<lparr>arg_dm = Array3 [[[1, 2, 3, 4], [5, 6, 7, 8], [9, 10, 11, 12], [13, 14, 15, 16]]],
          arg_dm_iscomplexobj = False, arg_kpt = [0, 0, 0], arg_kpts_band = None,
          arg_with_j = True, arg_with_k = True\<rparr>
     = Inr ([[6, 7, 6, 7], [10, 11, 10, 11], [6, 7, 6, 7], [10, 11, 10, 11]],
            [[3, 7 / 2, 3, 7 / 2], [5, 11 / 2, 5, 11 / 2], [3, 7 / 2, 3, 7 / 2], [5, 11 / 2, 5, 11 / 2]])"
proof -
  let ?dm = "[[1, 2, 3, 4], [5, 6, 7, 8], [9, 10, 11, 12], [13, 14, 15, 16]] :: real matrix"
  let ?S = "[[6, 7, 6, 7], [10, 11, 10, 11], [6, 7, 6, 7], [10, 11, 10, 11]] :: real matrix"
  let ?env = "\<lparr>env_gamma_point = (\<lambda>k. sum_list (map abs k) < 1 / 10 ^ 9),
          env_get_j_kSym = (\<lambda>mydf d. Inr d), env_get_k_kSym = (\<lambda>mydf d. Inr (mat_div d 2))\<rparr>"
  let ?mydf = "\<lparr>mydf_Ls = (1, 1, 2), mydf_jk_buffer = Some [], mydf_outcore = False,
          mydf_with_robust_fitting = False, mydf_nIP_Prim = 0, mydf_W = [], mydf_W0 = [],
      mydf_aoRg_Prim = [], mydf_nao = 4, mydf_ngrid = 8, mydf_vol = 1\<rparr>"
  let ?args = "\<lparr>arg_dm = Array3 [?dm],
          arg_dm_iscomplexobj = False, arg_kpt = [0, 0, 0], arg_kpts_band = None,
          arg_with_j = True, arg_with_k = True\<rparr>"
  have h1: "has_shape ?dm 4 4" by (simp add: has_shape_def)
  have h2: "prod3 (1, 1, 2) dvd (4::nat)" by (simp add: prod3_def)
  note t = symmetrize_dm_average [OF h1 h2]
  have e: "symmetrize_dm ?dm (1, 1, 2) = ?S" by code_simp
  have r: "(0, 0, 1) \<in> set (cells (1, 1, 2))" "(0, 0, 0) \<in> set (cells (1, 1, 2))"
    by (simp_all add: set_cells)
  have ab: "(1::nat) < 4 div prod3 (1, 1, 2)" "(0::nat) < 4 div prod3 (1, 1, 2)"
    by (simp_all add: prod3_def)
  have b: "block (symmetrize_dm ?dm (1, 1, 2))
         (4 div prod3 (1, 1, 2)) (loc_cell (1, 1, 2) (0, 0, 1)) (loc_cell (1, 1, 2) (0, 0, 0)) ! 1 ! 0
     = block_average ?dm (1, 1, 2)
         (4 div prod3 (1, 1, 2)) (cell_diff (1, 1, 2) (0, 0, 0) (0, 0, 1)) 1 0"
    using t [THEN conjunct2, THEN conjunct1, rule_format, OF r ab] .
  have v: "block_average ?dm (1, 1, 2)
         (4 div prod3 (1, 1, 2)) (cell_diff (1, 1, 2) (0, 0, 0) (0, 0, 1)) 1 0 = (7 + 13) / 2"
    by code_simp
  have run: "get_jk_dm_kSym ?env ?mydf ?args
      = Inr (?S, [[3, 7 / 2, 3, 7 / 2], [5, 11 / 2, 5, 11 / 2], [3, 7 / 2, 3, 7 / 2], [5, 11 / 2, 5, 11 / 2]])"
    by code_simp
  show ?thesis using e b v run by (intro conjI)
qed




section \<open>Properties of the constructors\<close>

lemma mesh_divisible_iff: "mesh_divisible mesh Ls = exactly_divisible mesh Ls"
  by (cases mesh, cases Ls) (simp add: mesh_divisible_def exactly_divisible_def mod_eq_0_iff_dvd)

text \<open>
  C7, as amended.  After the parent constructor has returned, and for positive translation
  counts: when some mesh component is not exactly divisible by its translation count, both
  constructors end in an AssertionError with no step started but the parent constructor (no
  grid extraction, no orbital evaluation, no primitive cell).  When all three are divisible,
  \<open>PBC_ISDF_Info_kSym_init\<close> goes on to the grid extraction provided that
  \<open>with_robust_fitting\<close> is \<open>False\<close>, and returns the object if the extraction succeeds;
  \<open>PBC_ISDF_Info_Quad_K_init\<close> goes on to build the primitive cell.
\<close>

theorem init_checks_divisibility:
  assumes "kSym_super_init env = Inr base" and "Quad_K_super_init qenv = Inr qbase"
    and "positive3 Ls"
  shows "(\<not> exactly_divisible (base_mesh base) Ls \<longrightarrow>
            PBC_ISDF_Info_kSym_init env Ls outcore with_robust_fitting
              = ([Super_init], Inl AssertionError))
       \<and> (\<not> exactly_divisible (base_mesh qbase) Ls \<longrightarrow>
            PBC_ISDF_Info_Quad_K_init qenv (Some Ls) = ([Super_init], Inl AssertionError))
       \<and> (exactly_divisible (base_mesh base) Ls \<and> with_robust_fitting = False \<longrightarrow>
            Extract_grid_primitive_cell
              \<in> set (fst (PBC_ISDF_Info_kSym_init env Ls outcore with_robust_fitting))
          \<and> (\<forall>grid. kSym_extract_grid env (base_mesh base) Ls = Inr grid \<longrightarrow>
                (\<exists>obj. snd (PBC_ISDF_Info_kSym_init env Ls outcore with_robust_fitting) = Inr obj
                       \<and> obj_Ls obj = Ls)))
       \<and> (exactly_divisible (base_mesh qbase) Ls \<longrightarrow>
            Build_primitive_cell \<in> set (fst (PBC_ISDF_Info_Quad_K_init qenv (Some Ls))))"
  using assms(1,2)
  by (auto simp: PBC_ISDF_Info_kSym_init_def PBC_ISDF_Info_Quad_K_init_def mesh_divisible_iff
      kSym_init_tail_def Quad_K_init_tail_def Let_def split: sum.splits)


text \<open>
  The claim as stated fails: with a mesh of \<open>(2, 2, 2)\<close>, \<open>Ls = (1, 1, 1)\<close> and the default
  arguments \<open>outcore = True\<close>, \<open>with_robust_fitting = True\<close>, every component is divisible
  and yet the construction stops at \<^verbatim>\<open>assert with_robust_fitting == False\<close>.
\<close>

theorem init_divisible_not_sufficient:
  "exactly_divisible (2, 2, 2) (1, 1, 1)
   \<and> PBC_ISDF_Info_kSym_init
       \<lparr>kSym_super_init = Inr \<lparr>base_mesh = (2, 2, 2), base_coords_is_None = False, base_nao = 8\<rparr>,
        kSym_extract_grid = (\<lambda>mesh Ls. Inr ())\<rparr>
       (1, 1, 1) True True
     = ([Super_init], Inl AssertionError)"
  by (simp add: exactly_divisible_def PBC_ISDF_Info_kSym_init_def)

theorem init_checks_divisibility_witness:
  "PBC_ISDF_Info_kSym_init
       \<lparr>kSym_super_init = Inr \<lparr>base_mesh = (4, 2, 3), base_coords_is_None = False, base_nao = 8\<rparr>,
        kSym_extract_grid = (\<lambda>mesh Ls. Inr ())\<rparr>
       (2, 1, 2) False False
     = ([Super_init], Inl AssertionError)
   \<and> PBC_ISDF_Info_Quad_K_init
       \<lparr>Quad_K_super_init = Inr \<lparr>base_mesh = (4, 2, 3), base_coords_is_None = False, base_nao = 8\<rparr>,
        Quad_K_build_primitive_cell = (\<lambda>Ls. Inr 2)\<rparr>
       (Some (2, 1, 2))
     = ([Super_init], Inl AssertionError)
   \<and> Extract_grid_primitive_cell \<in> set (fst (PBC_ISDF_Info_kSym_init
       \<lparr>kSym_super_init = Inr \<lparr>base_mesh = (4, 2, 4), base_coords_is_None = False, base_nao = 8\<rparr>,
        kSym_extract_grid = (\<lambda>mesh Ls. Inr ())\<rparr>
       (2, 1, 2) False False))
   \<and> Build_primitive_cell \<in> set (fst (PBC_ISDF_Info_Quad_K_init
       \<lparr>Quad_K_super_init = Inr \<lparr>base_mesh = (4, 2, 4), base_coords_is_None = False, base_nao = 8\<rparr>,
        Quad_K_build_primitive_cell = (\<lambda>Ls. Inr 2)\<rparr>
       (Some (2, 1, 2))))"
proof -
  let ?b = "\<lparr>base_mesh = (4, 2, 3), base_coords_is_None = False, base_nao = 8\<rparr>"
  let ?b' = "\<lparr>base_mesh = (4, 2, 4), base_coords_is_None = False, base_nao = 8\<rparr>"
  let ?e = "\<lparr>kSym_super_init = Inr ?b, kSym_extract_grid = (\<lambda>mesh Ls. Inr ())\<rparr>"
  let ?q = "\<lparr>Quad_K_super_init = Inr ?b, Quad_K_build_primitive_cell = (\<lambda>Ls. Inr 2)\<rparr>"
  let ?e' = "\<lparr>kSym_super_init = Inr ?b', kSym_extract_grid = (\<lambda>mesh Ls. Inr ())\<rparr>"
  let ?q' = "\<lparr>Quad_K_super_init = Inr ?b', Quad_K_build_primitive_cell = (\<lambda>Ls. Inr 2)\<rparr>"
  have p: "positive3 (2, 1, 2)" by (simp add: positive3_def)
  have n: "\<not> exactly_divisible (base_mesh ?b) (2, 1, 2)" by (simp add: exactly_divisible_def)
  have d: "exactly_divisible (base_mesh ?b') (2, 1, 2)" by (simp add: exactly_divisible_def)
  have s: "kSym_super_init ?e = Inr ?b" "Quad_K_super_init ?q = Inr ?b"
          "kSym_super_init ?e' = Inr ?b'" "Quad_K_super_init ?q' = Inr ?b'" by simp_all
  note t = init_checks_divisibility [OF s(1) s(2) p, of False False]
  note t' = init_checks_divisibility [OF s(3) s(4) p, of False False]
  have 1: "PBC_ISDF_Info_kSym_init ?e (2, 1, 2) False False = ([Super_init], Inl AssertionError)"
    using t [THEN conjunct1, rule_format, OF n] .
  have 2: "PBC_ISDF_Info_Quad_K_init ?q (Some (2, 1, 2)) = ([Super_init], Inl AssertionError)"
    using t [THEN conjunct2, THEN conjunct1, rule_format, OF n] .
  have 3: "Extract_grid_primitive_cell \<in> set (fst (PBC_ISDF_Info_kSym_init ?e' (2, 1, 2) False False))"
    using t' [THEN conjunct2, THEN conjunct2, THEN conjunct1, rule_format, THEN conjunct1] d
    by simp
  have 4: "Build_primitive_cell \<in> set (fst (PBC_ISDF_Info_Quad_K_init ?q' (Some (2, 1, 2))))"
    using t' [THEN conjunct2, THEN conjunct2, THEN conjunct2, rule_format, OF d] .
  show ?thesis using 1 2 3 4 by (intro conjI)
qed

section \<open>Properties of the Coulomb metric and the J build\<close>

lemma slice_cols_shape:
  assumes "has_shape M r C" "c1 \<le> C"
  shows "has_shape (slice_cols M c0 c1) r (c1 - c0)"
  using assms
  by (intro has_shapeI) (simp_all add: slice_cols_def has_shape_length has_shape_nth)

lemma construct_W0_nth:
  assumes W: "has_shape W n (n * ncell)"
  shows "has_shape (construct_W0 W n ncell) n n
       \<and> (\<forall>a<n. \<forall>b<n. construct_W0 W n ncell ! a ! b
            = (\<Sum>i\<leftarrow>[0..<ncell]. slice_cols W (i * n) ((i + 1) * n) ! a ! b))"
proof -
  let ?B = "\<lambda>i. slice_cols W (i * n) ((i + 1) * n)"
  have f: "construct_W0 W n ncell = fold (\<lambda>i buf. mat_add buf (?B i)) [0..<ncell] (zeros n n)"
    by (simp add: construct_W0_def Let_def)
  have B: "has_shape (?B i) n n" if "i \<in> set [0..<ncell]" for i
  proof -
    have "i < ncell" using that by simp
    then have "(i + 1) * n \<le> ncell * n" by (intro mult_le_mono1) simp
    then have "(i + 1) * n \<le> n * ncell" by (simp add: mult.commute)
    with W have "has_shape (?B i) n ((i + 1) * n - i * n)" by (rule slice_cols_shape)
    then show ?thesis by simp
  qed
  have "has_shape (fold (\<lambda>i buf. mat_add buf (?B i)) [0..<ncell] (zeros n n)) n n
       \<and> (\<forall>a<n. \<forall>b<n. fold (\<lambda>i buf. mat_add buf (?B i)) [0..<ncell] (zeros n n) ! a ! b
            = zeros n n ! a ! b + (\<Sum>i\<leftarrow>[0..<ncell]. ?B i ! a ! b))"
    using B has_shape_zeros by (rule fold_mat_add)
  then show ?thesis unfolding f by (simp add: zeros_nth)
qed

lemma allocate_jk_buffer_InrD:
  assumes "allocate_jk_buffer K mydf = Inr mydf1"
  shows "mydf_jk_buffer mydf1 \<noteq> None \<and> mydf_Ls mydf1 = mydf_Ls mydf
       \<and> mydf_nIP_Prim mydf1 = mydf_nIP_Prim mydf"
  using assms by (auto simp: allocate_jk_buffer_def split: if_splits sum.splits)

lemma construct_W_incore_InrD:
  assumes "construct_W_incore K W_buf3 mydf = Inr (mydf', W)"
  shows "W = W_buf3 \<and> mydf_W mydf' = W \<and> mydf_jk_buffer mydf' \<noteq> None
       \<and> mydf_W0 mydf' = construct_W0 W (mydf_nIP_Prim mydf) (prod3 (mydf_Ls mydf))"
proof (cases "allocate_jk_buffer K mydf")
  case (Inl e)
  then show ?thesis using assms by (simp add: construct_W_incore_def)
next
  case (Inr mydf1)
  note a = allocate_jk_buffer_InrD [OF Inr]
  have "mydf' = mydf1\<lparr>mydf_W := W_buf3,
      mydf_W0 := construct_W0 W_buf3 (mydf_nIP_Prim mydf1) (prod3 (mydf_Ls mydf1))\<rparr>"
    and "W = W_buf3"
    using assms Inr by (auto simp: construct_W_incore_def Let_def)
  then show ?thesis using a by simp
qed

lemma get_j_kSym_ignores_W:
  assumes "mydf_jk_buffer mydf \<noteq> None"
  shows "get_j_kSym K (mydf\<lparr>mydf_W := X\<rparr>) dm_arg = get_j_kSym K mydf dm_arg"
proof -
  have b: "get_j_block_step K (mydf\<lparr>mydf_W := X\<rparr>) = get_j_block_step K mydf"
    by (simp add: fun_eq_iff get_j_block_step_def)
  have s: "get_j_buffer_J_step K (mydf\<lparr>mydf_W := X\<rparr>) = get_j_buffer_J_step K mydf"
    by (simp add: fun_eq_iff get_j_buffer_J_step_def b)
  have w: "get_j_bufferW K (mydf\<lparr>mydf_W := X\<rparr>) = get_j_bufferW K mydf"
    by (simp add: fun_eq_iff get_j_bufferW_def get_j_density_Rg_def)
  have c: "get_j_kSym_compute K (mydf\<lparr>mydf_W := X\<rparr>) = get_j_kSym_compute K mydf"
    by (simp add: fun_eq_iff get_j_kSym_compute_def s w)
  show ?thesis
    using assms by (simp add: get_j_kSym_def allocate_jk_buffer_def c split: sum.splits)
qed

text \<open>
  C6.  When \<open>construct_W_incore\<close> returns, the object holds the returned \<open>W\<close> and a
  \<open>W0\<close> of shape \<open>(nIP_prim, nIP_prim)\<close> that is, entry by entry, the sum over the cell
  indices \<open>i = 0, ..., prod(Ls) - 1\<close> of the column blocks
  \<open>W[:, i * nIP_prim : (i + 1) * nIP_prim]\<close>.  The J build contracts this \<open>W0\<close> with the
  density projected on the interpolation points, and does not read \<open>W\<close>: replacing \<open>W\<close>
  by any matrix leaves its result unchanged.
\<close>

theorem construct_W_incore_W0:
  assumes "has_shape W_buf3 (mydf_nIP_Prim mydf) (mydf_nIP_Prim mydf * prod3 (mydf_Ls mydf))"
    and "construct_W_incore K W_buf3 mydf = Inr (mydf', W)"
  shows "mydf_W mydf' = W
       \<and> has_shape (mydf_W0 mydf') (mydf_nIP_Prim mydf) (mydf_nIP_Prim mydf)
       \<and> (\<forall>a<mydf_nIP_Prim mydf. \<forall>b<mydf_nIP_Prim mydf.
            mydf_W0 mydf' ! a ! b
            = (\<Sum>i\<leftarrow>[0..<prod3 (mydf_Ls mydf)].
                 slice_cols (mydf_W mydf') (i * mydf_nIP_Prim mydf) ((i + 1) * mydf_nIP_Prim mydf)
                   ! a ! b))
       \<and> (\<forall>dm. get_j_bufferW K mydf' dm
            = concat (lib_ddot K (mydf_W0 mydf') (map (\<lambda>x. [x]) (get_j_density_Rg K mydf' dm))))
       \<and> (\<forall>X dm_arg. get_j_kSym K (mydf'\<lparr>mydf_W := X\<rparr>) dm_arg = get_j_kSym K mydf' dm_arg)"
proof -
  note d = construct_W_incore_InrD [OF assms(2)]
  have W: "has_shape W (mydf_nIP_Prim mydf) (mydf_nIP_Prim mydf * prod3 (mydf_Ls mydf))"
    using assms(1) d by simp
  note n = construct_W0_nth [OF W]
  have 1: "mydf_W mydf' = W" using d by simp
  have 2: "has_shape (mydf_W0 mydf') (mydf_nIP_Prim mydf) (mydf_nIP_Prim mydf)"
    using n d by simp
  have 3: "\<forall>a<mydf_nIP_Prim mydf. \<forall>b<mydf_nIP_Prim mydf.
            mydf_W0 mydf' ! a ! b
            = (\<Sum>i\<leftarrow>[0..<prod3 (mydf_Ls mydf)].
                 slice_cols (mydf_W mydf') (i * mydf_nIP_Prim mydf) ((i + 1) * mydf_nIP_Prim mydf)
                   ! a ! b)"
    using n d by simp
  have 4: "\<forall>dm. get_j_bufferW K mydf' dm
            = concat (lib_ddot K (mydf_W0 mydf') (map (\<lambda>x. [x]) (get_j_density_Rg K mydf' dm)))"
    by (simp add: get_j_bufferW_def)
  have 5: "\<forall>X dm_arg. get_j_kSym K (mydf'\<lparr>mydf_W := X\<rparr>) dm_arg = get_j_kSym K mydf' dm_arg"
    using d get_j_kSym_ignores_W by blast
  show ?thesis using 1 2 3 4 5 by (intro conjI)
qed


theorem construct_W_incore_W0_witness:
  "construct_W_incore
     \<lparr>lib_ddot = (\<lambda>a b. a), lib_multiply_sum_isdf = (\<lambda>a b. map sum_list a),
      lib_d_ij_j_ij = (\<lambda>a v. a), lib_ddot_withbuffer = (\<lambda>a b c. c),
      lib_new_jk_buffer = (\<lambda>mydf. Inr [])\<rparr>
     [[1, 2, 3, 4], [5, 6, 7, 8]]
     \<lparr>mydf_Ls = (1, 1, 2), mydf_jk_buffer = Some [], mydf_outcore = False,
      mydf_with_robust_fitting = False, mydf_nIP_Prim = 2, mydf_W = [], mydf_W0 = [],
      mydf_aoRg_Prim = [], mydf_nao = 4, mydf_ngrid = 8, mydf_vol = 1\<rparr>
   = Inr (\<lparr>mydf_Ls = (1, 1, 2), mydf_jk_buffer = Some [], mydf_outcore = False,
           mydf_with_robust_fitting = False, mydf_nIP_Prim = 2,
           mydf_W = [[1, 2, 3, 4], [5, 6, 7, 8]], mydf_W0 = [[4, 6], [12, 14]],
           mydf_aoRg_Prim = [], mydf_nao = 4, mydf_ngrid = 8, mydf_vol = 1\<rparr>,
          [[1, 2, 3, 4], [5, 6, 7, 8]])
   \<and> has_shape [[4, 6], [12, 14 :: real]] 2 2
   \<and> [[4, 6], [12, 14 :: real]] ! 1 ! 0
     = (\<Sum>i\<leftarrow>[0..<prod3 (1, 1, 2)].
          slice_cols [[1, 2, 3, 4], [5, 6, 7, 8]] (i * 2) ((i + 1) * 2) ! 1 ! 0)"
proof -
  let ?K = "\<lparr>lib_ddot = (\<lambda>a b. a), lib_multiply_sum_isdf = (\<lambda>a b. map sum_list a),
      lib_d_ij_j_ij = (\<lambda>a v. a), lib_ddot_withbuffer = (\<lambda>a b c. c),
      lib_new_jk_buffer = (\<lambda>mydf. Inr [])\<rparr>"
  let ?W = "[[1, 2, 3, 4], [5, 6, 7, 8]] :: real matrix"
  let ?m = "\<lparr>mydf_Ls = (1, 1, 2), mydf_jk_buffer = Some [], mydf_outcore = False,
      mydf_with_robust_fitting = False, mydf_nIP_Prim = 2, mydf_W = [], mydf_W0 = [],
      mydf_aoRg_Prim = [], mydf_nao = 4, mydf_ngrid = 8, mydf_vol = 1\<rparr>"
  let ?m' = "\<lparr>mydf_Ls = (1, 1, 2), mydf_jk_buffer = Some [], mydf_outcore = False,
           mydf_with_robust_fitting = False, mydf_nIP_Prim = 2,
           mydf_W = ?W, mydf_W0 = [[4, 6], [12, 14]],
           mydf_aoRg_Prim = [], mydf_nao = 4, mydf_ngrid = 8, mydf_vol = 1\<rparr>"
  have h: "has_shape ?W (mydf_nIP_Prim ?m) (mydf_nIP_Prim ?m * prod3 (mydf_Ls ?m))"
    by (simp add: has_shape_def prod3_def)
  have run: "construct_W_incore ?K ?W ?m = Inr (?m', ?W)"
    by code_simp
  note t = construct_W_incore_W0 [OF h run]
  have s: "has_shape [[4, 6], [12, 14 :: real]] 2 2"
    using t [THEN conjunct2, THEN conjunct1] by simp
  have e: "[[4, 6], [12, 14 :: real]] ! 1 ! 0
     = (\<Sum>i\<leftarrow>[0..<prod3 (1, 1, 2)]. slice_cols ?W (i * 2) ((i + 1) * 2) ! 1 ! 0)"
    using t [THEN conjunct2, THEN conjunct2, THEN conjunct1, rule_format, of 1 0] by simp
  show ?thesis using run s e by (intro conjI)
qed

section \<open>Properties of the column-pivoted QR\<close>

lemma argmax_less: "xs \<noteq> [] \<Longrightarrow> argmax xs < length xs"
  by (induction xs rule: argmax.induct) (auto simp: Let_def)

lemma argmax_max: "i < length xs \<Longrightarrow> xs ! i \<le> xs ! argmax xs"
proof (induction xs arbitrary: i rule: argmax.induct)
  case 1
  then show ?case by simp
next
  case (2 x)
  then show ?case by simp
next
  case (3 x y ys)
  show ?case
  proof (cases i)
    case 0
    then show ?thesis by (auto simp: Let_def)
  next
    case (Suc k)
    then have "k < length (y # ys)" using "3.prems" by simp
    then have "(y # ys) ! k \<le> (y # ys) ! argmax (y # ys)" by (rule "3.IH")
    then show ?thesis using Suc by (auto simp: Let_def)
  qed
qed

lemma argmax_first: "i < argmax xs \<Longrightarrow> xs ! i < xs ! argmax xs"
proof (induction xs arbitrary: i rule: argmax.induct)
  case 1
  then show ?case by simp
next
  case (2 x)
  then show ?case by simp
next
  case (3 x y ys)
  let ?k = "argmax (y # ys)"
  have nz: "\<not> (y # ys) ! ?k \<le> x" and am: "argmax (x # y # ys) = Suc ?k"
    using "3.prems" by (auto simp: Let_def split: if_splits)
  show ?case
  proof (cases i)
    case 0
    then show ?thesis using nz am by simp
  next
    case (Suc j)
    then have "j < ?k" using "3.prems" am by simp
    then have "(y # ys) ! j < (y # ys) ! ?k" by (rule "3.IH")
    then show ?thesis using Suc am by simp
  qed
qed

lemma qr_select_props:
  assumes "j < length AA"
  shows "j \<le> qr_select j AA \<and> qr_select j AA < length AA
       \<and> (\<forall>i. j \<le> i \<and> i < length AA \<longrightarrow> np_norm (AA ! i) \<le> np_norm (AA ! qr_select j AA))
       \<and> (\<forall>i. j \<le> i \<and> i < qr_select j AA \<longrightarrow> np_norm (AA ! i) < np_norm (AA ! qr_select j AA))"
proof -
  let ?ns = "map np_norm (drop j AA)"
  let ?k = "argmax ?ns"
  have ne: "?ns \<noteq> []" using assms by simp
  have k: "?k < length AA - j" using argmax_less [OF ne] by simp
  have p: "qr_select j AA = ?k + j" by (simp add: qr_select_def)
  have nk: "?ns ! i = np_norm (AA ! (i + j))" if "i < length AA - j" for i
    using that by (simp add: add.commute)
  have 1: "np_norm (AA ! i) \<le> np_norm (AA ! (?k + j))" if "j \<le> i" "i < length AA" for i
  proof -
    have "i - j < length ?ns" using that by simp
    then have "?ns ! (i - j) \<le> ?ns ! ?k" by (rule argmax_max)
    then show ?thesis using nk [of "i - j"] nk [OF k] that by simp
  qed
  have 2: "np_norm (AA ! i) < np_norm (AA ! (?k + j))" if "j \<le> i" "i < ?k + j" for i
  proof -
    have "i - j < ?k" using that by linarith
    then have "?ns ! (i - j) < ?ns ! ?k" by (rule argmax_first)
    moreover have "i - j < length AA - j" using that k by linarith
    ultimately show ?thesis using nk [of "i - j"] nk [OF k] that by simp
  qed
  show ?thesis unfolding p using k 1 2 by auto
qed


lemma swap_length [simp]: "length (swap j p xs) = length xs"
  by (simp add: swap_def)

lemma swap_nth_j: "j < length xs \<Longrightarrow> p < length xs \<Longrightarrow> swap j p xs ! j = xs ! p"
  by (cases "j = p") (simp_all add: swap_def)

lemma swap_mset: "j < length xs \<Longrightarrow> p < length xs \<Longrightarrow> mset (swap j p xs) = mset xs"
  unfolding swap_def by (rule mset_swap)

lemma qr_step_fields:
  "qr_pivot (fst (qr_step cutoff j s)) = swap j (qr_select j (qr_AA s)) (qr_pivot s)
   \<and> length (qr_AA (fst (qr_step cutoff j s))) = length (qr_AA s)
   \<and> qr_npt_find (fst (qr_step cutoff j s)) \<le> qr_npt_find s + 1"
  by (simp add: qr_step_def Let_def)

lemma qr_step_row:
  assumes "j < length (qr_AA s)"
  shows "qr_AA (fst (qr_step cutoff j s)) ! j = qr_AA s ! qr_select j (qr_AA s)"
proof -
  have p: "qr_select j (qr_AA s) < length (qr_AA s)"
    using qr_select_props [OF assms] by simp
  show ?thesis
    using assms p by (simp add: qr_step_def Let_def swap_nth_j)
qed

lemma qr_loop_inv:
  assumes "\<forall>j \<in> set js. j < n" "length (qr_AA s) = n" "length (qr_pivot s) = n"
  shows "length (qr_AA (qr_loop cutoff js s)) = n
       \<and> mset (qr_pivot (qr_loop cutoff js s)) = mset (qr_pivot s)
       \<and> qr_npt_find (qr_loop cutoff js s) \<le> qr_npt_find s + length js"
  using assms
proof (induction js arbitrary: s)
  case Nil
  then show ?case by simp
next
  case (Cons j js)
  let ?s' = "fst (qr_step cutoff j s)"
  note f = qr_step_fields [of cutoff j s]
  have j: "j < n" using Cons.prems(1) by simp
  have p: "qr_select j (qr_AA s) < n"
    using qr_select_props [of j "qr_AA s"] j Cons.prems(2) by simp
  have l: "length (qr_AA ?s') = n" using f Cons.prems(2) by simp
  have m: "mset (qr_pivot ?s') = mset (qr_pivot s)"
    using f j p Cons.prems(3) by (simp add: swap_mset)
  have lp: "length (qr_pivot ?s') = n" using m Cons.prems(3) by (metis mset_eq_length)
  have c: "qr_npt_find ?s' \<le> qr_npt_find s + 1" using f by simp
  show ?case
  proof (cases "snd (qr_step cutoff j s)")
    case True
    then have "qr_loop cutoff (j # js) s = ?s'" by (simp add: case_prod_unfold)
    then show ?thesis using l m c by simp
  next
    case False
    then have e: "qr_loop cutoff (j # js) s = qr_loop cutoff js ?s'"
      by (simp add: case_prod_unfold)
    have "length (qr_AA (qr_loop cutoff js ?s')) = n
       \<and> mset (qr_pivot (qr_loop cutoff js ?s')) = mset (qr_pivot ?s')
       \<and> qr_npt_find (qr_loop cutoff js ?s') \<le> qr_npt_find ?s' + length js"
      using Cons.prems(1) l lp by (intro Cons.IH) simp_all
    then show ?thesis unfolding e using m c by simp
  qed
qed

text \<open>
  C4, as amended.  For every real \<open>m \<times> n\<close> matrix, every \<open>max_rank\<close> and a positive
  cutoff: the returned pivot array has \<open>n\<close> entries, none twice, with the values
  \<open>0 ..< n\<close> (a permutation); when \<open>max_rank\<close> is not negative, the reported number of
  pivots is at most \<open>min(m, n, max_rank)\<close>; and at a step \<open>j\<close> the selected position \<open>p\<close>
  lies among the remaining rows \<open>j ..< n\<close> of the working array, carries the largest
  residual norm of them, is the first such position in the working array's current order
  (every remaining position before it has a strictly smaller norm), and its row and its
  pivot entry are moved to position \<open>j\<close>.
\<close>

theorem colpivot_qr_pivoting:
  assumes "has_shape A m n" and "0 < cutoff"
  shows "length (qr_pivot (colpivot_qr m n A max_rank cutoff)) = n
       \<and> distinct (qr_pivot (colpivot_qr m n A max_rank cutoff))
       \<and> set (qr_pivot (colpivot_qr m n A max_rank cutoff)) = {0..<n}
       \<and> (0 \<le> qr_max_rank m n max_rank \<longrightarrow>
            int (qr_npt_find (colpivot_qr m n A max_rank cutoff))
            \<le> min (int m) (min (int n) (qr_max_rank m n max_rank)))
       \<and> (\<forall>s j. j < length (qr_AA s) \<longrightarrow>
            j \<le> qr_select j (qr_AA s) \<and> qr_select j (qr_AA s) < length (qr_AA s)
          \<and> (\<forall>i. j \<le> i \<and> i < length (qr_AA s) \<longrightarrow>
                np_norm (qr_AA s ! i) \<le> np_norm (qr_AA s ! qr_select j (qr_AA s)))
          \<and> (\<forall>i. j \<le> i \<and> i < qr_select j (qr_AA s) \<longrightarrow>
                np_norm (qr_AA s ! i) < np_norm (qr_AA s ! qr_select j (qr_AA s)))
          \<and> qr_AA (fst (qr_step cutoff j s)) ! j = qr_AA s ! qr_select j (qr_AA s)
          \<and> qr_pivot (fst (qr_step cutoff j s))
              = swap j (qr_select j (qr_AA s)) (qr_pivot s))"
proof -
  let ?mr = "qr_max_rank m n max_rank"
  let ?steps = "nat (min (int m) (min (int n) ?mr))"
  let ?r = "colpivot_qr m n A max_rank cutoff"
  have r: "?r = qr_loop cutoff [0..<?steps] (qr_init m n A)"
    by (simp add: colpivot_qr_def Let_def)
  have js: "\<forall>j \<in> set [0..<?steps]. j < n" by auto
  have inv: "length (qr_AA ?r) = n
       \<and> mset (qr_pivot ?r) = mset (qr_pivot (qr_init m n A))
       \<and> qr_npt_find ?r \<le> qr_npt_find (qr_init m n A) + length [0..<?steps]"
    unfolding r using js by (rule qr_loop_inv) (simp_all add: qr_init_def)
  have ms: "mset (qr_pivot ?r) = mset [0..<n]" using inv by (simp add: qr_init_def)
  have 1: "length (qr_pivot ?r) = n" using ms by (metis mset_eq_length length_upt diff_zero)
  have 2: "distinct (qr_pivot ?r)" using ms by (metis distinct_upt mset_eq_imp_distinct_iff)
  have 3: "set (qr_pivot ?r) = {0..<n}" using ms by (metis mset_eq_setD set_upt)
  have 4: "0 \<le> ?mr \<longrightarrow> int (qr_npt_find ?r) \<le> min (int m) (min (int n) ?mr)"
  proof
    assume "0 \<le> ?mr"
    then have "int ?steps = min (int m) (min (int n) ?mr)" by simp
    moreover have "qr_npt_find ?r \<le> ?steps" using inv by (simp add: qr_init_def)
    ultimately show "int (qr_npt_find ?r) \<le> min (int m) (min (int n) ?mr)" by linarith
  qed
  have 5: "\<forall>s j. j < length (qr_AA s) \<longrightarrow>
            j \<le> qr_select j (qr_AA s) \<and> qr_select j (qr_AA s) < length (qr_AA s)
          \<and> (\<forall>i. j \<le> i \<and> i < length (qr_AA s) \<longrightarrow>
                np_norm (qr_AA s ! i) \<le> np_norm (qr_AA s ! qr_select j (qr_AA s)))
          \<and> (\<forall>i. j \<le> i \<and> i < qr_select j (qr_AA s) \<longrightarrow>
                np_norm (qr_AA s ! i) < np_norm (qr_AA s ! qr_select j (qr_AA s)))
          \<and> qr_AA (fst (qr_step cutoff j s)) ! j = qr_AA s ! qr_select j (qr_AA s)
          \<and> qr_pivot (fst (qr_step cutoff j s))
              = swap j (qr_select j (qr_AA s)) (qr_pivot s)"
  proof (intro allI impI)
    fix s :: qr_state and j
    assume j: "j < length (qr_AA s)"
    note a = qr_select_props [OF j]
    have a1: "j \<le> qr_select j (qr_AA s)" using a by (rule conjunct1)
    have a2: "qr_select j (qr_AA s) < length (qr_AA s)"
      using a by (rule conjunct2 [THEN conjunct1])
    have a3: "\<forall>i. j \<le> i \<and> i < length (qr_AA s) \<longrightarrow>
                np_norm (qr_AA s ! i) \<le> np_norm (qr_AA s ! qr_select j (qr_AA s))"
      using a by (rule conjunct2 [THEN conjunct2, THEN conjunct1])
    have a4: "\<forall>i. j \<le> i \<and> i < qr_select j (qr_AA s) \<longrightarrow>
                np_norm (qr_AA s ! i) < np_norm (qr_AA s ! qr_select j (qr_AA s))"
      using a by (rule conjunct2 [THEN conjunct2, THEN conjunct2])
    have a5: "qr_AA (fst (qr_step cutoff j s)) ! j = qr_AA s ! qr_select j (qr_AA s)"
      using j by (rule qr_step_row)
    have a6: "qr_pivot (fst (qr_step cutoff j s)) = swap j (qr_select j (qr_AA s)) (qr_pivot s)"
      using qr_step_fields [of cutoff j s] by (rule conjunct1)
    show "j \<le> qr_select j (qr_AA s) \<and> qr_select j (qr_AA s) < length (qr_AA s)
          \<and> (\<forall>i. j \<le> i \<and> i < length (qr_AA s) \<longrightarrow>
                np_norm (qr_AA s ! i) \<le> np_norm (qr_AA s ! qr_select j (qr_AA s)))
          \<and> (\<forall>i. j \<le> i \<and> i < qr_select j (qr_AA s) \<longrightarrow>
                np_norm (qr_AA s ! i) < np_norm (qr_AA s ! qr_select j (qr_AA s)))
          \<and> qr_AA (fst (qr_step cutoff j s)) ! j = qr_AA s ! qr_select j (qr_AA s)
          \<and> qr_pivot (fst (qr_step cutoff j s))
              = swap j (qr_select j (qr_AA s)) (qr_pivot s)"
      using a1 a2 a3 a4 a5 a6 by (intro conjI)
  qed
  show ?thesis using 1 2 3 4 5 by (intro conjI)
qed


lemma np_norm_examples:
  "np_norm [0, 0, 2] = 2" "np_norm [0, 1, 0] = 1" "np_norm [1, 0, 0] = 1"
  by (simp_all add: np_norm_def)

lemma ex_init:
  "qr_init 3 3 [[1, 0, 0], [0, 1, 0], [0, 0, 2]]
   = \<lparr>qr_AA = [[1, 0, 0], [0, 1, 0], [0, 0, 2]],
      qr_Q = [[0, 0, 0], [0, 0, 0], [0, 0, 0]], qr_R = [[0, 0, 0], [0, 0, 0], [0, 0, 0]],
      qr_pivot = [0, 1, 2], qr_npt_find = 0\<rparr>"
  by code_simp

lemma ex_select0: "qr_select 0 [[1, 0, 0], [0, 1, 0], [0, 0, 2]] = 2"
  by (simp add: qr_select_def np_norm_examples)

lemma ex_step0:
  "qr_step (1 / 10 ^ 14) 0
     \<lparr>qr_AA = [[1, 0, 0], [0, 1, 0], [0, 0, 2]],
      qr_Q = [[0, 0, 0], [0, 0, 0], [0, 0, 0]], qr_R = [[0, 0, 0], [0, 0, 0], [0, 0, 0]],
      qr_pivot = [0, 1, 2], qr_npt_find = 0\<rparr>
   = (\<lparr>qr_AA = [[0, 0, 2], [0, 1, 0], [1, 0, 0]],
       qr_Q = [[0, 0, 1], [0, 0, 0], [0, 0, 0]], qr_R = [[2, 0, 0], [0, 0, 0], [0, 0, 0]],
       qr_pivot = [2, 1, 0], qr_npt_find = 1\<rparr>, False)"
  by (simp add: qr_step_def Let_def ex_select0 swap_def np_norm_examples dot_def eval_nat_numeral)


lemma ex_select1: "qr_select 1 [[0, 0, 2], [0, 1, 0], [1, 0, 0]] = 1"
  by (simp add: qr_select_def np_norm_examples)

lemma ex_select1_Suc: "qr_select (Suc 0) [[0, 0, 2], [0, 1, 0], [1, 0, 0]] = Suc 0"
  using ex_select1 by simp

lemma ex_step1:
  "qr_step (1 / 10 ^ 14) 1
     \<lparr>qr_AA = [[0, 0, 2], [0, 1, 0], [1, 0, 0]],
      qr_Q = [[0, 0, 1], [0, 0, 0], [0, 0, 0]], qr_R = [[2, 0, 0], [0, 0, 0], [0, 0, 0]],
      qr_pivot = [2, 1, 0], qr_npt_find = 1\<rparr>
   = (\<lparr>qr_AA = [[0, 0, 2], [0, 1, 0], [1, 0, 0]],
       qr_Q = [[0, 0, 1], [0, 1, 0], [0, 0, 0]], qr_R = [[2, 0, 0], [0, 1, 0], [0, 0, 0]],
       qr_pivot = [2, 1, 0], qr_npt_find = 2\<rparr>, False)"
  by (simp add: qr_step_def Let_def ex_select1_Suc swap_def np_norm_examples dot_def eval_nat_numeral)

lemma ex_select2: "qr_select 2 [[0, 0, 2], [0, 1, 0], [1, 0, 0]] = 2"
  by (simp add: qr_select_def np_norm_examples eval_nat_numeral)

lemma ex_select2_Suc: "qr_select (Suc (Suc 0)) [[0, 0, 2], [0, 1, 0], [1, 0, 0]] = Suc (Suc 0)"
  using ex_select2 by (simp add: eval_nat_numeral)

lemma ex_step2:
  "qr_step (1 / 10 ^ 14) 2
     \<lparr>qr_AA = [[0, 0, 2], [0, 1, 0], [1, 0, 0]],
      qr_Q = [[0, 0, 1], [0, 1, 0], [0, 0, 0]], qr_R = [[2, 0, 0], [0, 1, 0], [0, 0, 0]],
      qr_pivot = [2, 1, 0], qr_npt_find = 2\<rparr>
   = (\<lparr>qr_AA = [[0, 0, 2], [0, 1, 0], [1, 0, 0]],
       qr_Q = [[0, 0, 1], [0, 1, 0], [1, 0, 0]], qr_R = [[2, 0, 0], [0, 1, 0], [0, 0, 1]],
       qr_pivot = [2, 1, 0], qr_npt_find = 3\<rparr>, False)"
  by (simp add: qr_step_def Let_def ex_select2_Suc swap_def np_norm_examples dot_def eval_nat_numeral)

lemma ex_steps: "[0..<nat (min (int 3) (min (int 3) (qr_max_rank 3 3 None)))] = [0, 1, 2]"
  by (simp add: qr_max_rank_def upt_rec)

lemma ex_run:
  "colpivot_qr 3 3 [[1, 0, 0], [0, 1, 0], [0, 0, 2]] None (1 / 10 ^ 14)
   = \<lparr>qr_AA = [[0, 0, 2], [0, 1, 0], [1, 0, 0]],
      qr_Q = [[0, 0, 1], [0, 1, 0], [1, 0, 0]], qr_R = [[2, 0, 0], [0, 1, 0], [0, 0, 1]],
      qr_pivot = [2, 1, 0], qr_npt_find = 3\<rparr>"
  unfolding colpivot_qr_def Let_def ex_steps ex_init
  by (simp only: qr_loop.simps ex_step0 ex_step1 ex_step2 prod.case if_False)

lemma ex_run_neg:
  "colpivot_qr 3 3 [[1, 0, 0], [0, 1, 0], [0, 0, 2]] (Some (- 1)) (1 / 10 ^ 14)
   = qr_init 3 3 [[1, 0, 0], [0, 1, 0], [0, 0, 2]]"
  by (simp add: colpivot_qr_def qr_max_rank_def)

lemma ex_step0_init:
  "qr_step (1 / 10 ^ 14) 0 (qr_init 3 3 [[1, 0, 0], [0, 1, 0], [0, 0, 2]])
   = (\<lparr>qr_AA = [[0, 0, 2], [0, 1, 0], [1, 0, 0]],
       qr_Q = [[0, 0, 1], [0, 0, 0], [0, 0, 0]], qr_R = [[2, 0, 0], [0, 0, 0], [0, 0, 0]],
       qr_pivot = [2, 1, 0], qr_npt_find = 1\<rparr>, False)"
  unfolding ex_init by (rule ex_step0)

text \<open>
  The claim as stated fails on the columns \<open>(1, 0, 0)\<close>, \<open>(0, 1, 0)\<close>, \<open>(0, 0, 2)\<close>.  Step 0
  takes column 2 and its swap puts column 0 behind column 1.  At step 1 the two remaining
  columns have the same residual norm; column 0 comes first in input order, yet the
  position selected is 1, which holds column 1, and the pivot array ends as
  \<open>[2, 1, 0]\<close>.  And with \<open>max_rank = -1\<close> no step runs: the reported count 0 exceeds
  \<open>min(m, n, max_rank) = -1\<close>.
\<close>

theorem colpivot_qr_tie_not_input_order:
  "qr_pivot (colpivot_qr 3 3 [[1, 0, 0], [0, 1, 0], [0, 0, 2]] None (1 / 10 ^ 14)) = [2, 1, 0]
   \<and> qr_AA (fst (qr_step (1 / 10 ^ 14) 0 (qr_init 3 3 [[1, 0, 0], [0, 1, 0], [0, 0, 2]])))
     = [[0, 0, 2], [0, 1, 0], [1, 0, 0]]
   \<and> qr_pivot (fst (qr_step (1 / 10 ^ 14) 0 (qr_init 3 3 [[1, 0, 0], [0, 1, 0], [0, 0, 2]])))
     = [2, 1, 0]
   \<and> np_norm ([[0, 0, 2], [0, 1, 0], [1, 0, 0]] ! 1) = np_norm ([[0, 0, 2], [0, 1, 0], [1, 0, 0]] ! 2)
   \<and> [2, 1, 0 :: nat] ! 2 < [2, 1, 0] ! 1
   \<and> qr_select 1 [[0, 0, 2], [0, 1, 0], [1, 0, 0]] = 1
   \<and> min (int 3) (min (int 3) (qr_max_rank 3 3 (Some (- 1))))
     < int (qr_npt_find (colpivot_qr 3 3 [[1, 0, 0], [0, 1, 0], [0, 0, 2]] (Some (- 1)) (1 / 10 ^ 14)))"
proof -
  have 1: "qr_pivot (colpivot_qr 3 3 [[1, 0, 0], [0, 1, 0], [0, 0, 2]] None (1 / 10 ^ 14))
      = [2, 1, 0]"
    by (simp only: ex_run qr_state.simps)
  have 2: "qr_AA (fst (qr_step (1 / 10 ^ 14) 0 (qr_init 3 3 [[1, 0, 0], [0, 1, 0], [0, 0, 2]])))
      = [[0, 0, 2], [0, 1, 0], [1, 0, 0]]"
    by (simp only: ex_step0_init fst_conv qr_state.simps)
  have 3: "qr_pivot (fst (qr_step (1 / 10 ^ 14) 0 (qr_init 3 3 [[1, 0, 0], [0, 1, 0], [0, 0, 2]])))
      = [2, 1, 0]"
    by (simp only: ex_step0_init fst_conv qr_state.simps)
  have 4: "np_norm ([[0, 0, 2], [0, 1, 0], [1, 0, 0]] ! 1)
      = np_norm ([[0, 0, 2], [0, 1, 0], [1, 0, 0]] ! 2)"
    by (simp add: np_norm_def)
  have 5: "[2, 1, 0 :: nat] ! 2 < [2, 1, 0] ! 1"
    by simp
  have 6: "min (int 3) (min (int 3) (qr_max_rank 3 3 (Some (- 1))))
      < int (qr_npt_find (colpivot_qr 3 3 [[1, 0, 0], [0, 1, 0], [0, 0, 2]] (Some (- 1)) (1 / 10 ^ 14)))"
    unfolding ex_run_neg by (simp add: qr_max_rank_def qr_init_def)
  show ?thesis using 1 2 3 4 5 ex_select1 6 by (intro conjI)
qed

theorem colpivot_qr_pivoting_witness:
  "qr_pivot (colpivot_qr 3 3 [[1, 0, 0], [0, 1, 0], [0, 0, 2]] None (1 / 10 ^ 14)) = [2, 1, 0]
   \<and> distinct (qr_pivot (colpivot_qr 3 3 [[1, 0, 0], [0, 1, 0], [0, 0, 2]] None (1 / 10 ^ 14)))
   \<and> set (qr_pivot (colpivot_qr 3 3 [[1, 0, 0], [0, 1, 0], [0, 0, 2]] None (1 / 10 ^ 14))) = {0..<3}
   \<and> int (qr_npt_find (colpivot_qr 3 3 [[1, 0, 0], [0, 1, 0], [0, 0, 2]] None (1 / 10 ^ 14)))
     \<le> min (int 3) (min (int 3) (qr_max_rank 3 3 None))
   \<and> qr_npt_find (colpivot_qr 3 3 [[1, 0, 0], [0, 1, 0], [0, 0, 2]] None (1 / 10 ^ 14)) = 3
   \<and> qr_select 0 (qr_AA (qr_init 3 3 [[1, 0, 0], [0, 1, 0], [0, 0, 2]])) = 2
   \<and> qr_AA (fst (qr_step (1 / 10 ^ 14) 0 (qr_init 3 3 [[1, 0, 0], [0, 1, 0], [0, 0, 2]]))) ! 0
     = qr_AA (qr_init 3 3 [[1, 0, 0], [0, 1, 0], [0, 0, 2]])
         ! qr_select 0 (qr_AA (qr_init 3 3 [[1, 0, 0], [0, 1, 0], [0, 0, 2]]))"
proof -
  let ?A = "[[1, 0, 0], [0, 1, 0], [0, 0, 2]] :: real matrix"
  let ?c = "1 / 10 ^ 14 :: real"
  have h1: "has_shape ?A 3 3" by (simp add: has_shape_def)
  have h2: "0 < ?c" by simp
  note t = colpivot_qr_pivoting [OF h1 h2, of None]
  have m: "0 \<le> qr_max_rank 3 3 None" by (simp add: qr_max_rank_def)
  have j: "0 < length (qr_AA (qr_init 3 3 ?A))" by (simp add: ex_init)
  have 1: "qr_pivot (colpivot_qr 3 3 ?A None ?c) = [2, 1, 0]"
    by (simp only: ex_run qr_state.simps)
  have 2: "distinct (qr_pivot (colpivot_qr 3 3 ?A None ?c))"
    using t by (rule conjunct2 [THEN conjunct1])
  have 3: "set (qr_pivot (colpivot_qr 3 3 ?A None ?c)) = {0..<3}"
    using t by (rule conjunct2 [THEN conjunct2, THEN conjunct1])
  have 4: "int (qr_npt_find (colpivot_qr 3 3 ?A None ?c))
      \<le> min (int 3) (min (int 3) (qr_max_rank 3 3 None))"
    using t [THEN conjunct2, THEN conjunct2, THEN conjunct2, THEN conjunct1, rule_format, OF m] .
  have 5: "qr_npt_find (colpivot_qr 3 3 ?A None ?c) = 3"
    by (simp only: ex_run qr_state.simps)
  have 6: "qr_select 0 (qr_AA (qr_init 3 3 ?A)) = 2"
    by (simp only: ex_init qr_state.simps ex_select0)
  have 7: "qr_AA (fst (qr_step ?c 0 (qr_init 3 3 ?A))) ! 0
      = qr_AA (qr_init 3 3 ?A) ! qr_select 0 (qr_AA (qr_init 3 3 ?A))"
    using t [THEN conjunct2, THEN conjunct2, THEN conjunct2, THEN conjunct2, rule_format, OF j]
    by (rule conjunct2 [THEN conjunct2, THEN conjunct2, THEN conjunct2, THEN conjunct1])
  show ?thesis using 1 2 3 4 5 6 7 by (intro conjI)
qed

end
